theory Spec2Isabelle
  imports Main "HOL-Library.Word" "HOL-Library.Multiset"
begin

section \<open>The agent launcher: \<^verbatim>\<open>scripts/launch_codex_agents.py\<close>\<close>

text \<open>
  The script runs three phases of external agent jobs. Each job (\<^verbatim>\<open>run_agent\<close>) spawns one
  process with a 120 second timeout, decodes what it printed and writes one report file;
  each phase (\<^verbatim>\<open>run_phase\<close>) runs its jobs on a thread pool and collects the results as
  they complete; \<^verbatim>\<open>main\<close> runs the phases one after the other and prints a tally.

  Everything outside the script (the clock, the spawned processes, the disk, the order in
  which the pool's futures complete) is a field of the record \<open>env\<close>; the script's own
  effects are the files it writes and the events of its main thread.
\<close>

subsection \<open>Python text and bytes\<close>

text \<open>
  A Python \<^verbatim>\<open>str\<close> is a sequence of code points; \<open>char\<close> has only 256 values, so text is
  a list of code point numbers and \<open>str\<close> embeds a literal. \<^verbatim>\<open>bytes\<close> is a list of 8-bit words.
\<close>

type_synonym pystr = "nat list"
type_synonym bytes = "8 word list"

definition str :: "string \<Rightarrow> pystr" where
  "str s = map of_char s"

definition NL :: nat where
  "NL = 10"

text \<open>\<^verbatim>\<open>sep.join(parts)\<close>.\<close>

fun join :: "pystr \<Rightarrow> pystr list \<Rightarrow> pystr" where
  "join sep [] = []"
| "join sep [x] = x"
| "join sep (x # y # ys) = x @ sep @ join sep (y # ys)"

text \<open>
  \<^verbatim>\<open>s.strip()\<close> removes leading and trailing white space, the code points for which
  \<^verbatim>\<open>str.isspace\<close> holds.
\<close>

definition isspace :: "nat \<Rightarrow> bool" where
  "isspace c \<longleftrightarrow>
     (9 \<le> c \<and> c \<le> 13) \<or> (28 \<le> c \<and> c \<le> 32) \<or> c = 0x85 \<or> c = 0xA0 \<or> c = 0x1680 \<or>
     (0x2000 \<le> c \<and> c \<le> 0x200A) \<or> c = 0x2028 \<or> c = 0x2029 \<or> c = 0x202F \<or>
     c = 0x205F \<or> c = 0x3000"

definition lstrip :: "pystr \<Rightarrow> pystr" where
  "lstrip s = dropWhile isspace s"

definition rstrip :: "pystr \<Rightarrow> pystr" where
  "rstrip s = rev (dropWhile isspace (rev s))"

definition strip :: "pystr \<Rightarrow> pystr" where
  "strip s = rstrip (lstrip s)"

subsection \<open>Formatting numbers and the clock\<close>

text \<open>Decimal digits of a natural number, most significant first.\<close>

fun digits :: "nat \<Rightarrow> pystr" where
  "digits n = (if n < 10 then [48 + n] else digits (n div 10) @ [48 + n mod 10])"

declare digits.simps [simp del]

text \<open>\<^verbatim>\<open>f"{i}"\<close> for an integer: a minus sign for a negative number, then the digits.\<close>

definition str_int :: "int \<Rightarrow> pystr" where
  "str_int i = (if i < 0 then 45 # digits (nat (- i)) else digits (nat i))"

text \<open>
  \<^verbatim>\<open>f"{i:0Nd}"\<close>: the sign comes first, then zeros up to the width \<open>N\<close> (sign
  included), then the digits; a number that is wide enough is not padded.
\<close>

definition fmt_0d :: "nat \<Rightarrow> int \<Rightarrow> pystr" where
  "fmt_0d w i =
     (let sign = (if i < 0 then [45] else []); ds = digits (nat \<bar>i\<bar>)
      in sign @ replicate (w - length sign - length ds) 48 @ ds)"

record datetime =
  year :: nat
  month :: nat
  day :: nat
  hour :: nat
  minute :: nat
  second :: nat

text \<open>
  \<^verbatim>\<open>strftime("%Y%m%d_%H%M%S")\<close>: each field zero-padded to two digits, the year to
  four.
\<close>

definition strftime :: "datetime \<Rightarrow> pystr" where
  "strftime d =
     fmt_0d 4 (int (year d)) @ fmt_0d 2 (int (month d)) @ fmt_0d 2 (int (day d)) @ str ''_'' @
     fmt_0d 2 (int (hour d)) @ fmt_0d 2 (int (minute d)) @ fmt_0d 2 (int (second d))"

subsection \<open>Exceptions\<close>

datatype exn =
    OSError
  | TimeoutExpired "bytes option" "bytes option"
  | UnicodeDecodeError
  | ValueError

subsection \<open>Decoding UTF-8\<close>

text \<open>
  \<^verbatim>\<open>b.decode("utf-8", errors=...)\<close>. One step looks at the lead byte \<open>b\<close> and the bytes
  \<open>bs\<close> after it and returns the code point, or \<open>None\<close> for a malformed sequence, with
  the number of bytes it covers. A malformed sequence covers the longest prefix that
  could still have begun a well-formed one (at least the lead byte), as CPython's decoder
  reports it. With \<^verbatim>\<open>errors="strict"\<close> a malformed sequence raises; with
  \<^verbatim>\<open>errors="replace"\<close> it becomes U+FFFD and decoding goes on behind it.
\<close>

datatype errors = Strict | Replace

definition REPLACEMENT :: nat where
  "REPLACEMENT = 0xFFFD"

definition is_cont :: "nat \<Rightarrow> bool" where
  "is_cont c \<longleftrightarrow> 0x80 \<le> c \<and> c \<le> 0xBF"

definition utf8_step :: "nat \<Rightarrow> nat list \<Rightarrow> nat option \<times> nat" where
  "utf8_step b bs =
     (if b < 0x80 then (Some b, 1)
      else if b < 0xC2 then (None, 1)
      else if b < 0xE0 then
        (case bs of
           [] \<Rightarrow> (None, 1)
         | c1 # _ \<Rightarrow>
             if is_cont c1 then (Some ((b - 0xC0) * 64 + (c1 - 0x80)), 2) else (None, 1))
      else if b < 0xF0 then
        (case bs of
           [] \<Rightarrow> (None, 1)
         | c1 # r \<Rightarrow>
             if \<not> is_cont c1 \<or> (if c1 < 0xA0 then b = 0xE0 else b = 0xED) then (None, 1)
             else (case r of
                     [] \<Rightarrow> (None, 2)
                   | c2 # _ \<Rightarrow>
                       if is_cont c2
                       then (Some ((b - 0xE0) * 4096 + (c1 - 0x80) * 64 + (c2 - 0x80)), 3)
                       else (None, 2)))
      else if b < 0xF5 then
        (case bs of
           [] \<Rightarrow> (None, 1)
         | c1 # r \<Rightarrow>
             if \<not> is_cont c1 \<or> (if c1 < 0x90 then b = 0xF0 else b = 0xF4) then (None, 1)
             else (case r of
                     [] \<Rightarrow> (None, 2)
                   | c2 # r' \<Rightarrow>
                       if \<not> is_cont c2 then (None, 2)
                       else (case r' of
                               [] \<Rightarrow> (None, 3)
                             | c3 # _ \<Rightarrow>
                                 if is_cont c3
                                 then (Some ((b - 0xF0) * 262144 + (c1 - 0x80) * 4096 +
                                             (c2 - 0x80) * 64 + (c3 - 0x80)), 4)
                                 else (None, 3))))
      else (None, 1))"

fun decode_utf8 :: "errors \<Rightarrow> nat list \<Rightarrow> exn + pystr" where
  "decode_utf8 h [] = Inr []"
| "decode_utf8 h (b # bs) =
     (let r = utf8_step b bs in
      case fst r of
        Some cp \<Rightarrow>
          (case decode_utf8 h (drop (snd r - 1) bs) of
             Inl e \<Rightarrow> Inl e
           | Inr t \<Rightarrow> Inr (cp # t))
      | None \<Rightarrow>
          (case h of
             Strict \<Rightarrow> Inl UnicodeDecodeError
           | Replace \<Rightarrow>
               (case decode_utf8 h (drop (snd r - 1) bs) of
                  Inl e \<Rightarrow> Inl e
                | Inr t \<Rightarrow> Inr (REPLACEMENT # t))))"

definition decode :: "bytes \<Rightarrow> errors \<Rightarrow> exn + pystr" where
  "decode b h = decode_utf8 h (map unat b)"

text \<open>\<^verbatim>\<open>x or b""\<close> for a value that is \<^verbatim>\<open>None\<close> or bytes.\<close>

definition or_empty :: "bytes option \<Rightarrow> bytes" where
  "or_empty x = (case x of None \<Rightarrow> [] | Some b \<Rightarrow> b)"

subsection \<open>Paths\<close>

text \<open>
  \<^verbatim>\<open>pathlib\<close>'s pure paths in the POSIX flavour: a path is a root (empty, \<^verbatim>\<open>/\<close> or
  \<^verbatim>\<open>//\<close>) and a list of names. Parsing a string splits it at the separator and
  drops empty names and \<^verbatim>\<open>.\<close>; \<^verbatim>\<open>p / s\<close> appends the names of \<open>s\<close>, unless \<open>s\<close> has a
  root and then replaces \<open>p\<close>.

  The command line of the script starts \<^verbatim>\<open>powershell\<close>, so the script is also run on
  Windows, where \<^verbatim>\<open>Path\<close> is of the Windows flavour: the backslash separates names as
  well as \<^verbatim>\<open>/\<close>, a string may begin with a drive such as \<^verbatim>\<open>C:\<close>, and names are compared
  without regard to case. The two flavours agree on \<^verbatim>\<open>p / s\<close> for a string \<open>s\<close> that
  contains no \<^verbatim>\<open>/\<close>, no backslash and no colon, and is neither empty nor \<^verbatim>\<open>.\<close>: the
  result is \<open>p\<close> with the one name \<open>s\<close> appended. The strings the script joins,
  \<^verbatim>\<open>docs\<close>, \<^verbatim>\<open>agent_runs\<close> and the names of its report files, are of this kind.
\<close>

datatype path = Path (root: pystr) (names: "pystr list")

text \<open>\<^verbatim>\<open>s.split(c)\<close> for a one-character separator.\<close>

fun split_on :: "nat \<Rightarrow> pystr \<Rightarrow> pystr list" where
  "split_on c [] = [[]]"
| "split_on c (x # xs) =
     (if x = c then [] # split_on c xs
      else (case split_on c xs of [] \<Rightarrow> [[x]] | p # ps \<Rightarrow> (x # p) # ps))"

definition SEP :: nat where
  "SEP = 47"

definition path_root :: "pystr \<Rightarrow> pystr" where
  "path_root s =
     (if take 2 s = [SEP, SEP] \<and> take 3 s \<noteq> [SEP, SEP, SEP] then [SEP, SEP]
      else if take 1 s = [SEP] then [SEP]
      else [])"

definition path_names :: "pystr \<Rightarrow> pystr list" where
  "path_names s = filter (\<lambda>n. n \<noteq> [] \<and> n \<noteq> str ''.'') (split_on SEP s)"

definition joinpath :: "path \<Rightarrow> pystr \<Rightarrow> path" where
  "joinpath p s =
     (if path_root s \<noteq> [] then Path (path_root s) (path_names s)
      else Path (root p) (names p @ path_names s))"

definition str_path :: "path \<Rightarrow> pystr" where
  "str_path p =
     (if root p = [] \<and> names p = [] then str ''.'' else root p @ join [SEP] (names p))"

subsection \<open>The world outside the script\<close>

text \<open>
  What a spawned process does: whether it can be started at all, after how many seconds
  it exits by itself (\<open>None\<close>: never), its exit status and complete output, and the
  output that \<^verbatim>\<open>TimeoutExpired\<close> carries when the deadline comes first (\<^verbatim>\<open>None\<close> when
  nothing was collected).
\<close>

record process =
  starts :: bool
  run_time :: "nat option"
  status :: int
  out_bytes :: bytes
  err_bytes :: bytes
  partial_out :: "bytes option"
  partial_err :: "bytes option"

record completed_process =
  returncode :: int
  stdout :: "bytes option"
  stderr :: "bytes option"

text \<open>
  \<^verbatim>\<open>subprocess.run(cmd, capture_output=True, timeout=t, check=False)\<close>: \<^verbatim>\<open>OSError\<close> when
  the process cannot be started, \<^verbatim>\<open>TimeoutExpired\<close> when it has not exited after \<open>t\<close>
  seconds, and otherwise the exit status with both streams, whatever the status is.
\<close>

definition subprocess_run :: "process \<Rightarrow> nat \<Rightarrow> exn + completed_process" where
  "subprocess_run p t =
     (if \<not> starts p then Inl OSError
      else case run_time p of
        None \<Rightarrow> Inl (TimeoutExpired (partial_out p) (partial_err p))
      | Some d \<Rightarrow>
          if d \<le> t
          then Inr \<lparr>returncode = status p, stdout = Some (out_bytes p), stderr = Some (err_bytes p)\<rparr>
          else Inl (TimeoutExpired (partial_out p) (partial_err p)))"

text \<open>
  \<open>ROOT\<close> is the repository root the script computes from its own location. \<open>now\<close> and
  \<open>spawn\<close> give the clock reading and the process of the job with a phase name and an
  index; \<open>writable\<close> tells whether writing a text to a path succeeds; \<open>as_completed\<close>
  is the order in which the futures of a phase complete, as positions in the list of
  submitted jobs.
\<close>

record env =
  ROOT :: path
  mkdir_ok :: bool
  now :: "pystr \<Rightarrow> int \<Rightarrow> datetime"
  spawn :: "pystr \<Rightarrow> int \<Rightarrow> pystr list \<Rightarrow> process"
  writable :: "pystr \<Rightarrow> pystr \<Rightarrow> bool"
  as_completed :: "pystr \<Rightarrow> nat list"

definition OUT_DIR :: "env \<Rightarrow> path" where
  "OUT_DIR e = joinpath (joinpath (ROOT e) (str ''docs'')) (str ''agent_runs'')"

type_synonym files = "pystr \<rightharpoonup> pystr"

text \<open>
  \<^verbatim>\<open>path.write_text(data, encoding="utf-8")\<close>. The store keeps the text as it was handed
  over; a write that fails raises and leaves the store as it was.
\<close>

definition write_text :: "env \<Rightarrow> pystr \<Rightarrow> pystr \<Rightarrow> files \<Rightarrow> exn + files" where
  "write_text e p data fs = (if writable e p data then Inr (fs(p \<mapsto> data)) else Inl OSError)"

subsection \<open>\<^verbatim>\<open>run_agent\<close>\<close>

text \<open>
  \<^verbatim>\<open>run_agent\<close> (lines 41 to 84 of the script) in its parts: the name of the report file
  (lines 42 and 43), the command line (lines 44 to 49), the \<^verbatim>\<open>try\<close> statement (lines 50
  to 65), the lines of the report (lines 66 to 82), and the write and the return (lines
  83 and 84).
\<close>

definition TIMEOUT :: nat where
  "TIMEOUT = 120"

definition FENCE :: pystr where
  "FENCE = [96, 96, 96]"

definition QUOTE :: nat where
  "QUOTE = 34"

definition out_name :: "pystr \<Rightarrow> int \<Rightarrow> pystr \<Rightarrow> pystr" where
  "out_name phase idx stamp = phase @ str ''_'' @ fmt_0d 2 idx @ str ''_'' @ stamp @ str ''.md''"

definition agent_cmd :: "pystr \<Rightarrow> pystr list" where
  "agent_cmd prompt =
     [str ''powershell'', str ''-NoProfile'', str ''-Command'',
      str ''codex exec '' @ [QUOTE] @ prompt @ [QUOTE]]"

text \<open>
  The \<^verbatim>\<open>try\<close> statement of \<^verbatim>\<open>run_agent\<close>: the decoded streams and the exit code.
  Only \<^verbatim>\<open>TimeoutExpired\<close> is handled; any other exception leaves the function.
\<close>

definition capture :: "process \<Rightarrow> exn + (pystr \<times> pystr \<times> int)" where
  "capture p =
     (case subprocess_run p TIMEOUT of
        Inr proc \<Rightarrow>
          (case decode (or_empty (stdout proc)) Replace of
             Inl e \<Rightarrow> Inl e
           | Inr out \<Rightarrow>
               (case decode (or_empty (stderr proc)) Replace of
                  Inl e \<Rightarrow> Inl e
                | Inr err \<Rightarrow> Inr (out, err, returncode proc)))
      | Inl (TimeoutExpired exc_stdout exc_stderr) \<Rightarrow>
          (case decode (or_empty exc_stdout) Replace of
             Inl e \<Rightarrow> Inl e
           | Inr out \<Rightarrow>
               (case decode (or_empty exc_stderr) Replace of
                  Inl e \<Rightarrow> Inl e
                | Inr err \<Rightarrow> Inr (out, err @ NL # str ''TIMEOUT'', 124)))
      | Inl e \<Rightarrow> Inl e)"

text \<open>The lines of the report, joined with a line break before they are written.\<close>

definition report_body :: "pystr \<Rightarrow> int \<Rightarrow> pystr \<Rightarrow> int \<Rightarrow> pystr \<Rightarrow> pystr \<Rightarrow> pystr list" where
  "report_body phase idx prompt exit_code out err =
     [str ''# '' @ phase @ str '' Agent '' @ fmt_0d 2 idx,
      [],
      str ''- Prompt: '' @ prompt,
      str ''- Exit code: '' @ str_int exit_code,
      [],
      str ''## Stdout'',
      FENCE,
      strip out,
      FENCE,
      [],
      str ''## Stderr'',
      FENCE,
      strip err,
      FENCE,
      []]"

definition out_file :: "env \<Rightarrow> pystr \<Rightarrow> int \<Rightarrow> path" where
  "out_file e phase idx =
     joinpath (OUT_DIR e) (out_name phase idx (strftime (now e phase idx)))"

definition run_agent :: "env \<Rightarrow> pystr \<Rightarrow> int \<Rightarrow> pystr \<Rightarrow> files \<Rightarrow> (exn + pystr \<times> int) \<times> files" where
  "run_agent e phase idx prompt fs =
     (case capture (spawn e phase idx (agent_cmd prompt)) of
        Inl exc \<Rightarrow> (Inl exc, fs)
      | Inr (out, err, exit_code) \<Rightarrow>
          (case write_text e (str_path (out_file e phase idx))
                  (join [NL] (report_body phase idx prompt exit_code out err)) fs of
             Inl exc \<Rightarrow> (Inl exc, fs)
           | Inr fs' \<Rightarrow> (Inr (str_path (out_file e phase idx), exit_code), fs')))"

subsection \<open>\<^verbatim>\<open>run_phase\<close> and \<^verbatim>\<open>main\<close>\<close>

text \<open>
  \<^verbatim>\<open>run_phase\<close> is lines 87 to 96 of the script and \<^verbatim>\<open>main\<close> lines 99 to 106. The state
  they work on is the files written so far and the trace of the main thread's events,
  in the order it performs them: a line it prints, a job it submits to the pool, and a
  job whose future it receives from \<^verbatim>\<open>as_completed\<close>. A job runs between its
  submission and the completion of its future.
\<close>

datatype event =
    Printed pystr
  | Submitted pystr int
  | Completed pystr int

record state =
  files :: files
  trace :: "event list"

definition emit :: "event \<Rightarrow> state \<Rightarrow> state" where
  "emit ev s = s\<lparr>trace := trace s @ [ev]\<rparr>"

text \<open>The state in which the script starts: no file written, no event yet.\<close>

definition empty_state :: state where
  "empty_state = \<lparr>files = Map.empty, trace = []\<rparr>"

text \<open>
  The jobs of a phase, run in the order in which they complete; each result is kept with
  the position of its job. A job that raises stops no other job: the pool runs every
  submitted job, and leaving the \<^verbatim>\<open>with\<close> block waits for all of them.
\<close>

fun run_jobs ::
  "env \<Rightarrow> pystr \<Rightarrow> pystr list \<Rightarrow> nat list \<Rightarrow> files \<Rightarrow> (nat \<times> (exn + pystr \<times> int)) list \<times> files" where
  "run_jobs e name prompts [] fs = ([], fs)"
| "run_jobs e name prompts (i # is) fs =
     (let (r, fs1) = run_agent e name (int i + 1) (prompts ! i) fs;
          (rs, fs2) = run_jobs e name prompts is fs1
      in ((i, r) # rs, fs2))"

text \<open>
  The loop over \<^verbatim>\<open>as_completed(futs)\<close>: \<^verbatim>\<open>fut.result()\<close> returns the job's pair or raises
  the job's exception, which ends the loop and the phase.
\<close>

fun collect ::
  "pystr \<Rightarrow> (nat \<times> (exn + pystr \<times> int)) list \<Rightarrow> (pystr \<times> int) list \<Rightarrow> state \<Rightarrow>
   (exn + (pystr \<times> int) list) \<times> state" where
  "collect name [] results s = (Inr results, s)"
| "collect name ((i, Inl exc) # rs) results s = (Inl exc, emit (Completed name (int i + 1)) s)"
| "collect name ((i, Inr (path, code)) # rs) results s =
     collect name rs (results @ [(path, code)])
       (emit (Printed (str ''['' @ name @ str ''] completed: exit='' @ str_int code @
                       str '' file='' @ path))
          (emit (Completed name (int i + 1)) s))"

text \<open>A thread pool with no worker is refused: \<^verbatim>\<open>ThreadPoolExecutor(max_workers=0)\<close> raises.\<close>

definition run_phase ::
  "env \<Rightarrow> pystr \<Rightarrow> pystr list \<Rightarrow> state \<Rightarrow> (exn + (pystr \<times> int) list) \<times> state" where
  "run_phase e name prompts s =
     (let s1 = emit (Printed (str ''Running phase: '' @ name @ str '' ('' @
                              str_int (int (length prompts)) @ str '' agents)'')) s
      in if length prompts = 0 then (Inl ValueError, s1)
         else
           let s2 = fold (\<lambda>i. emit (Submitted name (int i + 1))) [0..<length prompts] s1;
               (rs, fs) = run_jobs e name prompts (as_completed e name) (files s2)
           in collect name rs [] (s2\<lparr>files := fs\<rparr>))"

definition IMPLEMENTATION_PROMPTS :: "pystr list" where
  "IMPLEMENTATION_PROMPTS =
     [str ''Implementer A01: review VS Code-like top menu UX and propose precise patch steps.'',
      str ''Implementer A02: improve code AI pane with plan/build/bugfix and fast feedback.'',
      str ''Implementer A03: propose robust file-action menu for chat code blocks.'',
      str ''Implementer A04: refine sidebar vertical nav and collapsed behavior.'',
      str ''Implementer A05: design drag/reorder UX for file library list.'',
      str ''Implementer A06: propose multi-sort file controls with open-in-code shortcut.'',
      str ''Implementer A07: validate tab rename UX and persistence behavior.'',
      str ''Implementer A08: system prompt settings design for chat/coding/plan/build/bugfix/image.'']"

definition BUGFIX_PROMPTS :: "pystr list" where
  "BUGFIX_PROMPTS =
     [str ''Bugfix B01: scan for renderer prop/type mismatches caused by new code features.'',
      str ''Bugfix B02: scan IPC contracts for payload mismatch and null/undefined risks.'',
      str ''Bugfix B03: review code AI timeout and loading UX for failure states.'',
      str ''Bugfix B04: review file operations edge cases: rename, move, duplicate, download.'',
      str ''Bugfix B05: review sidebar keyboard shortcut regressions and nav consistency.'',
      str ''Bugfix B06: review CSS overflow issues for code menubar and download shelf.'']"

definition DOC_PROMPTS :: "pystr list" where
  "DOC_PROMPTS =
     [str ''Docs C01: draft concise changelog entries for new IDE features.'',
      str ''Docs C02: draft architecture notes for new IPC and AI mode routing.'',
      str ''Docs C03: draft QA checklist for code view, files, settings, chat.'',
      str ''Docs C04: draft release notes plus known limitations and next steps.'']"

text \<open>\<^verbatim>\<open>sum(1 for _, c in all_results if c == 0)\<close>.\<close>

definition count_ok :: "(pystr \<times> int) list \<Rightarrow> int" where
  "count_ok rs = sum_list (map (\<lambda>(_, c). if c = 0 then 1 else 0) rs)"

definition main :: "env \<Rightarrow> state \<Rightarrow> (exn + unit) \<times> state" where
  "main e s =
     (case run_phase e (str ''implementation'') IMPLEMENTATION_PROMPTS s of
        (Inl exc, s1) \<Rightarrow> (Inl exc, s1)
      | (Inr r1, s1) \<Rightarrow>
          (case run_phase e (str ''bugfix'') BUGFIX_PROMPTS s1 of
             (Inl exc, s2) \<Rightarrow> (Inl exc, s2)
           | (Inr r2, s2) \<Rightarrow>
               (case run_phase e (str ''docs'') DOC_PROMPTS s2 of
                  (Inl exc, s3) \<Rightarrow> (Inl exc, s3)
                | (Inr r3, s3) \<Rightarrow>
                    (let all_results = r1 @ r2 @ r3; ok = count_ok all_results
                     in (Inr (),
                         emit (Printed (str ''All phases complete. Successful agents: '' @
                                        str_int ok @ str ''/'' @
                                        str_int (int (length all_results)))) s3)))))"

text \<open>
  The script as a whole: the output directory is created when the module is loaded,
  before \<^verbatim>\<open>main\<close> is called. The interpreter exits with status 0 when \<^verbatim>\<open>main\<close> returns and
  with status 1 when an exception leaves it.
\<close>

definition script :: "env \<Rightarrow> state \<Rightarrow> (exn + unit) \<times> state" where
  "script e s = (if mkdir_ok e then main e s else (Inl OSError, s))"

definition exit_status :: "exn + unit \<Rightarrow> int" where
  "exit_status r = (case r of Inl _ \<Rightarrow> 1 | Inr _ \<Rightarrow> 0)"

subsection \<open>Notions used to state the properties\<close>

text \<open>
  The exit code that \<^verbatim>\<open>run_agent\<close> records for a process that starts: the process's own
  status when it exits within the timeout, and 124 otherwise.
\<close>

definition exit_code_of :: "process \<Rightarrow> int" where
  "exit_code_of p =
     (case run_time p of None \<Rightarrow> 124 | Some d \<Rightarrow> if d \<le> 120 then status p else 124)"

text \<open>What a call of \<^verbatim>\<open>run_agent\<close> returns or raises; the files on disk have no part in it.\<close>

definition job_result :: "env \<Rightarrow> pystr \<Rightarrow> int \<Rightarrow> pystr \<Rightarrow> exn + pystr \<times> int" where
  "job_result e phase idx prompt = fst (run_agent e phase idx prompt Map.empty)"

text \<open>
  The futures of a phase with \<open>k\<close> jobs complete in some order: each position below \<open>k\<close>
  once.
\<close>

definition completion_order :: "nat \<Rightarrow> nat list \<Rightarrow> bool" where
  "completion_order k order \<longleftrightarrow> distinct order \<and> set order = {0..<k}"

text \<open>The results of the jobs of a phase in the order of completion, each with its position.\<close>

definition phase_results :: "env \<Rightarrow> pystr \<Rightarrow> pystr list \<Rightarrow> (nat \<times> (exn + pystr \<times> int)) list" where
  "phase_results e name prompts =
     map (\<lambda>i. (i, job_result e name (int i + 1) (prompts ! i))) (as_completed e name)"

text \<open>
  The report \<^verbatim>\<open>run_agent\<close> hands to \<^verbatim>\<open>write_text\<close> for a job whose process starts.
\<close>

definition job_report :: "env \<Rightarrow> pystr \<Rightarrow> int \<Rightarrow> pystr \<Rightarrow> pystr" where
  "job_report e phase idx prompt =
     (case capture (spawn e phase idx (agent_cmd prompt)) of
        Inl _ \<Rightarrow> []
      | Inr (out, err, exit_code) \<Rightarrow> join [NL] (report_body phase idx prompt exit_code out err))"

text \<open>A job result that counts as a success in the tally: exit code 0.\<close>

definition is_success :: "exn + pystr \<times> int \<Rightarrow> bool" where
  "is_success r = (case r of Inl _ \<Rightarrow> False | Inr (_, c) \<Rightarrow> c = 0)"

text \<open>
  The jobs of the script: \<^verbatim>\<open>run_phase\<close> numbers the prompts of a phase from 1, and
  \<^verbatim>\<open>main\<close> runs the three phases.
\<close>

definition phase_jobs :: "pystr \<Rightarrow> pystr list \<Rightarrow> (pystr \<times> int \<times> pystr) list" where
  "phase_jobs name prompts = map (\<lambda>i. (name, int i + 1, prompts ! i)) [0..<length prompts]"

definition JOBS :: "(pystr \<times> int \<times> pystr) list" where
  "JOBS = phase_jobs (str ''implementation'') IMPLEMENTATION_PROMPTS @
          phase_jobs (str ''bugfix'') BUGFIX_PROMPTS @
          phase_jobs (str ''docs'') DOC_PROMPTS"

text \<open>In each of the three phases the futures complete in some order.\<close>

definition orders_valid :: "env \<Rightarrow> bool" where
  "orders_valid e \<longleftrightarrow>
     completion_order (length IMPLEMENTATION_PROMPTS) (as_completed e (str ''implementation'')) \<and>
     completion_order (length BUGFIX_PROMPTS) (as_completed e (str ''bugfix'')) \<and>
     completion_order (length DOC_PROMPTS) (as_completed e (str ''docs''))"

text \<open>Every process of the script can be started and every report can be written.\<close>

definition jobs_sound :: "env \<Rightarrow> bool" where
  "jobs_sound e \<longleftrightarrow>
     (\<forall>(name, idx, prompt)\<in>set JOBS.
        starts (spawn e name idx (agent_cmd prompt)) \<and>
        (\<forall>data. writable e (str_path (out_file e name idx)) data))"

text \<open>The number of jobs among \<open>jobs\<close> whose result has exit code 0.\<close>

definition successes :: "env \<Rightarrow> (pystr \<times> int \<times> pystr) list \<Rightarrow> nat" where
  "successes e jobs =
     length (filter (\<lambda>(name, idx, prompt). is_success (job_result e name idx prompt)) jobs)"

text \<open>The last line \<^verbatim>\<open>main\<close> prints.\<close>

definition summary_line :: "(pystr \<times> int) list \<Rightarrow> event" where
  "summary_line all_results =
     Printed (str ''All phases complete. Successful agents: '' @ str_int (count_ok all_results) @
              str ''/'' @ str_int (int (length all_results)))"

text \<open>
  What \<^verbatim>\<open>run_phase\<close> returns or raises, and the events it adds to the trace; neither
  depends on the state it starts from.
\<close>

definition phase_value :: "env \<Rightarrow> pystr \<Rightarrow> pystr list \<Rightarrow> exn + (pystr \<times> int) list" where
  "phase_value e name prompts = fst (run_phase e name prompts empty_state)"

fun collect_trace :: "pystr \<Rightarrow> (nat \<times> (exn + pystr \<times> int)) list \<Rightarrow> event list" where
  "collect_trace name [] = []"
| "collect_trace name ((i, Inl exc) # rs) = [Completed name (int i + 1)]"
| "collect_trace name ((i, Inr (path, code)) # rs) =
     Completed name (int i + 1) #
     Printed (str ''['' @ name @ str ''] completed: exit='' @ str_int code @ str '' file='' @ path) #
     collect_trace name rs"

definition phase_trace :: "env \<Rightarrow> pystr \<Rightarrow> pystr list \<Rightarrow> event list" where
  "phase_trace e name prompts =
     Printed (str ''Running phase: '' @ name @ str '' ('' @ str_int (int (length prompts)) @
              str '' agents)'') #
     (if prompts = [] then []
      else map (\<lambda>i. Submitted name (int i + 1)) [0..<length prompts] @
           collect_trace name (phase_results e name prompts))"

text \<open>
  Order of phases in a trace. The phase of an event is the phase of the job it submits or
  completes. Phase \<open>p\<close> with \<open>k\<close> jobs is resolved before phase \<open>q\<close> in a trace when,
  at the first event of \<open>q\<close>, each of the jobs 1 to \<open>k\<close> of \<open>p\<close> has completed, and
  from then on no event of \<open>p\<close> occurs.
\<close>

definition phase_of :: "event \<Rightarrow> pystr option" where
  "phase_of ev = (case ev of Printed _ \<Rightarrow> None | Submitted p _ \<Rightarrow> Some p | Completed p _ \<Rightarrow> Some p)"

definition before_first :: "pystr \<Rightarrow> event list \<Rightarrow> event list" where
  "before_first q tr = takeWhile (\<lambda>ev. phase_of ev \<noteq> Some q) tr"

definition from_first :: "pystr \<Rightarrow> event list \<Rightarrow> event list" where
  "from_first q tr = dropWhile (\<lambda>ev. phase_of ev \<noteq> Some q) tr"

definition resolved_before :: "event list \<Rightarrow> pystr \<Rightarrow> nat \<Rightarrow> pystr \<Rightarrow> bool" where
  "resolved_before tr p k q \<longleftrightarrow>
     (from_first q tr \<noteq> [] \<longrightarrow> (\<forall>i\<in>{1..int k}. Completed p i \<in> set (before_first q tr))) \<and>
     (\<forall>ev\<in>set (from_first q tr). phase_of ev \<noteq> Some p)"

text \<open>The position of a phase in the sequence \<^verbatim>\<open>main\<close> runs.\<close>

definition phase_rank :: "pystr \<Rightarrow> nat" where
  "phase_rank name =
     (if name = str ''implementation'' then 0 else if name = str ''bugfix'' then 1 else 2)"

subsection \<open>A reader of reports\<close>

text \<open>
  The script has no reader of its reports. The reader of the round-trip property is
  written from the specification's words: it splits a report into lines, checks the
  fixed lines of the template, takes the prompt and the exit code from their lines, the
  standard output from the lines between the first delimiter and the next delimiter
  line, and the standard error from the lines between the third delimiter and the
  closing one. It removes the labels and the delimiters and nothing else.
\<close>

definition digit_value :: "pystr \<Rightarrow> nat" where
  "digit_value ds = foldl (\<lambda>a c. a * 10 + (c - 48)) 0 ds"

fun parse_int :: "pystr \<Rightarrow> int option" where
  "parse_int [] = None"
| "parse_int (c # cs) =
     (if c = 45
      then (if cs \<noteq> [] \<and> list_all (\<lambda>d. 48 \<le> d \<and> d \<le> 57) cs
            then Some (- int (digit_value cs)) else None)
      else (if list_all (\<lambda>d. 48 \<le> d \<and> d \<le> 57) (c # cs)
            then Some (int (digit_value (c # cs))) else None))"

definition read_report :: "pystr \<Rightarrow> (int \<times> pystr \<times> pystr \<times> pystr) option" where
  "read_report artifact =
     (case split_on NL artifact of
        heading # blank1 # prompt_line # code_line # blank2 # h1 # f1 # rest \<Rightarrow>
          (let out_lines = takeWhile (\<lambda>l. l \<noteq> FENCE) rest
           in case drop (length out_lines) rest of
                f2 # blank3 # h2 # f3 # rest' \<Rightarrow>
                  if take 10 prompt_line = str ''- Prompt: '' \<and>
                     take 13 code_line = str ''- Exit code: '' \<and>
                     h1 = str ''## Stdout'' \<and> f1 = FENCE \<and>
                     h2 = str ''## Stderr'' \<and> f3 = FENCE \<and> 3 \<le> length rest'
                  then (case parse_int (drop 13 code_line) of
                          None \<Rightarrow> None
                        | Some code \<Rightarrow>
                            Some (code, drop 10 prompt_line, join [NL] out_lines,
                                  join [NL] (take (length rest' - 2) rest')))
                  else None
              | _ \<Rightarrow> None)
      | _ \<Rightarrow> None)"

subsection \<open>UTF-8 as an encoding\<close>

text \<open>
  What the decoder is measured against: the encoding of a text as the Unicode standard
  defines it. A code point that may occur in encoded text is a scalar value (below
  \<^verbatim>\<open>0x110000\<close> and no surrogate); it is written in one to four bytes, the shortest
  form that holds it. A byte sequence is well-formed when it is the encoding of a text
  of scalar values.
\<close>

definition scalar_value :: "nat \<Rightarrow> bool" where
  "scalar_value cp \<longleftrightarrow> cp < 0xD800 \<or> (0xDFFF < cp \<and> cp < 0x110000)"

definition utf8_encode_cp :: "nat \<Rightarrow> nat list" where
  "utf8_encode_cp cp =
     (if cp < 0x80 then [cp]
      else if cp < 0x800 then [0xC0 + cp div 64, 0x80 + cp mod 64]
      else if cp < 0x10000 then
        [0xE0 + cp div 4096, 0x80 + (cp div 64) mod 64, 0x80 + cp mod 64]
      else
        [0xF0 + cp div 262144, 0x80 + (cp div 4096) mod 64, 0x80 + (cp div 64) mod 64,
         0x80 + cp mod 64])"

definition utf8_encode :: "nat list \<Rightarrow> nat list" where
  "utf8_encode t = concat (map utf8_encode_cp t)"

text \<open>
  Letters \<^verbatim>\<open>A\<close> to \<^verbatim>\<open>Z\<close> replaced by their lower-case forms: two file names that
  differ after this replacement are different files also on a file system that ignores
  case.
\<close>

definition ascii_lower :: "pystr \<Rightarrow> pystr" where
  "ascii_lower s = map (\<lambda>c. if 65 \<le> c \<and> c \<le> 90 then c + 32 else c) s"

subsection \<open>Example worlds\<close>

definition quick_process :: process where
  "quick_process =
     \<lparr>starts = True, run_time = Some 1, status = 0, out_bytes = [], err_bytes = [],
      partial_out = None, partial_err = None\<rparr>"

definition noon :: datetime where
  "noon = \<lparr>year = 2025, month = 1, day = 2, hour = 12, minute = 0, second = 0\<rparr>"

text \<open>A world in which every process exits at once with status 0 and every write succeeds.\<close>

definition calm_env :: env where
  "calm_env =
     \<lparr>ROOT = Path [SEP] [str ''repo''], mkdir_ok = True,
      now = (\<lambda>_ _. noon),
      spawn = (\<lambda>_ _ _. quick_process),
      writable = (\<lambda>_ _. True),
      as_completed = (\<lambda>name. if name = str ''implementation'' then [1, 0, 3, 2, 7, 6, 5, 4]
                              else if name = str ''bugfix'' then [5, 4, 3, 2, 1, 0]
                              else if name = str ''docs'' then [0, 1, 2, 3]
                              else [1, 0])\<rparr>"

text \<open>A process that runs for 500 seconds, and a world in which every process does.\<close>

definition slow_process :: process where
  "slow_process =
     \<lparr>starts = True, run_time = Some 500, status = 0, out_bytes = [], err_bytes = [],
      partial_out = Some [0x68, 0x69], partial_err = Some [0xFF]\<rparr>"

definition slow_env :: env where
  "slow_env = calm_env\<lparr>spawn := (\<lambda>_ _ _. slow_process)\<rparr>"

text \<open>
  A process that cannot be started, and a world in which the third job of the first
  phase is such a process.
\<close>

definition dead_process :: process where
  "dead_process = quick_process\<lparr>starts := False\<rparr>"

definition broken_env :: env where
  "broken_env =
     calm_env\<lparr>spawn := (\<lambda>name idx cmd.
        if name = str ''implementation'' \<and> idx = 3 then dead_process else quick_process)\<rparr>"

text \<open>
  A process that is still running one second after the deadline, with partial output
  \<^verbatim>\<open>hi\<close> and partial error output \<^verbatim>\<open>oops\<close> followed by a byte that is not UTF-8; the
  same process when it exits in the last second with status 3; the same process when it
  never exits and nothing was collected; and the world in which every process is a
  given one.
\<close>

definition late_process :: process where
  "late_process =
     \<lparr>starts = True, run_time = Some 121, status = 3,
      out_bytes = [0x64, 0x6F, 0x6E, 0x65], err_bytes = [],
      partial_out = Some [0x68, 0x69], partial_err = Some [0x6F, 0x6F, 0x70, 0x73, 0xFF]\<rparr>"

definition on_time_process :: process where
  "on_time_process = late_process\<lparr>run_time := Some 120\<rparr>"

definition stuck_process :: process where
  "stuck_process = late_process\<lparr>run_time := None, partial_out := None, partial_err := None\<rparr>"

definition process_env :: "process \<Rightarrow> env" where
  "process_env p = calm_env\<lparr>spawn := (\<lambda>_ _ _. p)\<rparr>"

section \<open>Properties\<close>

subsection \<open>Decoding\<close>

lemma decode_utf8_replace_total: "\<exists>t. decode_utf8 Replace bs = Inr t"
proof (induction bs rule: length_induct)
  case (1 bs)
  show ?case
  proof (cases bs)
    case Nil
    then show ?thesis by simp
  next
    case (Cons b rest)
    have "length (drop (snd (utf8_step b rest) - 1) rest) < length bs"
      using Cons by simp
    with 1 obtain t where "decode_utf8 Replace (drop (snd (utf8_step b rest) - 1) rest) = Inr t"
      by blast
    with Cons show ?thesis
      by (simp add: Let_def split: option.split)
  qed
qed

lemma decode_utf8_strict_exn: "decode_utf8 Strict bs = Inl e \<Longrightarrow> e = UnicodeDecodeError"
proof (induction bs rule: length_induct)
  case (1 bs)
  show ?case
  proof (cases bs)
    case Nil
    with 1(2) show ?thesis by simp
  next
    case (Cons b rest)
    let ?r = "drop (snd (utf8_step b rest) - 1) rest"
    have len: "length ?r < length bs"
      using Cons by simp
    show ?thesis
    proof (cases "fst (utf8_step b rest)")
      case None
      with Cons 1(2) show ?thesis by (simp add: Let_def)
    next
      case (Some cp)
      with Cons 1(2) have "decode_utf8 Strict ?r = Inl e"
        by (simp add: Let_def split: sum.splits)
      with 1(1) len show ?thesis by blast
    qed
  qed
qed

lemma decode_utf8_strict_ok: "decode_utf8 Strict bs = Inr t \<Longrightarrow> decode_utf8 Replace bs = Inr t"
proof (induction bs arbitrary: t rule: length_induct)
  case (1 bs)
  show ?case
  proof (cases bs)
    case Nil
    with 1(2) show ?thesis by simp
  next
    case (Cons b rest)
    let ?r = "drop (snd (utf8_step b rest) - 1) rest"
    have len: "length ?r < length bs"
      using Cons by simp
    show ?thesis
    proof (cases "fst (utf8_step b rest)")
      case None
      with Cons 1(2) show ?thesis by (simp add: Let_def)
    next
      case (Some cp)
      with Cons 1(2) obtain t' where t': "decode_utf8 Strict ?r = Inr t'" and t: "t = cp # t'"
        by (auto simp add: Let_def split: sum.splits)
      from 1(1) len t' have "decode_utf8 Replace ?r = Inr t'" by blast
      with Cons Some t show ?thesis by (simp add: Let_def)
    qed
  qed
qed

lemma decode_utf8_strict_fail:
  "decode_utf8 Strict bs = Inl e \<Longrightarrow> \<exists>t. decode_utf8 Replace bs = Inr t \<and> REPLACEMENT \<in> set t"
proof (induction bs rule: length_induct)
  case (1 bs)
  show ?case
  proof (cases bs)
    case Nil
    with 1(2) show ?thesis by simp
  next
    case (Cons b rest)
    let ?r = "drop (snd (utf8_step b rest) - 1) rest"
    have len: "length ?r < length bs"
      using Cons by simp
    show ?thesis
    proof (cases "fst (utf8_step b rest)")
      case None
      obtain t where "decode_utf8 Replace ?r = Inr t"
        using decode_utf8_replace_total by blast
      with Cons None show ?thesis by (simp add: Let_def)
    next
      case (Some cp)
      with Cons 1(2) have "decode_utf8 Strict ?r = Inl e"
        by (simp add: Let_def split: sum.splits)
      with 1(1) len obtain t where "decode_utf8 Replace ?r = Inr t" "REPLACEMENT \<in> set t" by blast
      with Cons Some show ?thesis by (simp add: Let_def)
    qed
  qed
qed

lemma divmod_step:
  assumes "s < m"
  shows "(x * m + s) div m = x" and "(x * m + s) mod m = (s::nat)"
  using assms by simp_all

lemma split3:
  assumes "r < 64" "s < (64::nat)"
  shows "(q * 4096 + r * 64 + s) div 4096 = q"
    and "((q * 4096 + r * 64 + s) div 64) mod 64 = r"
    and "(q * 4096 + r * 64 + s) mod 64 = s"
proof -
  have a: "q * 4096 + r * 64 + s = (q * 64 + r) * 64 + s" by simp
  have b: "q * 4096 + r * 64 + s = q * 4096 + (r * 64 + s)" by simp
  have c: "r * 64 + s < 4096" using assms by simp
  show "(q * 4096 + r * 64 + s) div 4096 = q"
    by (subst b) (rule divmod_step(1) [OF c])
  have "(q * 4096 + r * 64 + s) div 64 = q * 64 + r"
    by (subst a) (rule divmod_step(1) [OF assms(2)])
  then show "((q * 4096 + r * 64 + s) div 64) mod 64 = r"
    using divmod_step(2) [OF assms(1), of q] by (simp only:)
  show "(q * 4096 + r * 64 + s) mod 64 = s"
    by (subst a) (rule divmod_step(2) [OF assms(2)])
qed

lemma split4:
  assumes "r < 64" "s < 64" "u < (64::nat)"
  shows "(q * 262144 + r * 4096 + s * 64 + u) div 262144 = q"
    and "((q * 262144 + r * 4096 + s * 64 + u) div 4096) mod 64 = r"
    and "((q * 262144 + r * 4096 + s * 64 + u) div 64) mod 64 = s"
    and "(q * 262144 + r * 4096 + s * 64 + u) mod 64 = u"
proof -
  let ?n = "q * 262144 + r * 4096 + s * 64 + u"
  have a: "?n = (q * 64 + r) * 4096 + s * 64 + u" by simp
  have b: "?n = q * 262144 + (r * 4096 + s * 64 + u)" by simp
  have c: "r * 4096 + s * 64 + u < 262144" using assms by simp
  show "?n div 262144 = q"
    by (subst b) (rule divmod_step(1) [OF c])
  have "?n div 4096 = q * 64 + r"
    by (subst a) (rule split3(1) [OF assms(2,3)])
  then show "(?n div 4096) mod 64 = r"
    using divmod_step(2) [OF assms(1), of q] by (simp only:)
  show "(?n div 64) mod 64 = s"
    by (subst a) (rule split3(2) [OF assms(2,3)])
  show "?n mod 64 = u"
    by (subst a) (rule split3(3) [OF assms(2,3)])
qed

lemma utf8_step_Some:
  assumes "utf8_step b bs = (Some cp, n)"
  obtains
    (one) "b < 0x80" "cp = b" "n = 1"
  | (two) c1 r where "0xC2 \<le> b" "b < 0xE0" "bs = c1 # r" "is_cont c1"
      "cp = (b - 0xC0) * 64 + (c1 - 0x80)" "n = 2"
  | (three) c1 c2 r where "0xE0 \<le> b" "b < 0xF0" "bs = c1 # c2 # r" "is_cont c1" "is_cont c2"
      "b = 0xE0 \<longrightarrow> 0xA0 \<le> c1" "b = 0xED \<longrightarrow> c1 < 0xA0"
      "cp = (b - 0xE0) * 4096 + (c1 - 0x80) * 64 + (c2 - 0x80)" "n = 3"
  | (four) c1 c2 c3 r where "0xF0 \<le> b" "b < 0xF5" "bs = c1 # c2 # c3 # r"
      "is_cont c1" "is_cont c2" "is_cont c3"
      "b = 0xF0 \<longrightarrow> 0x90 \<le> c1" "b = 0xF4 \<longrightarrow> c1 < 0x90"
      "cp = (b - 0xF0) * 262144 + (c1 - 0x80) * 4096 + (c2 - 0x80) * 64 + (c3 - 0x80)" "n = 4"
proof -
  consider "b < 0x80" | "0x80 \<le> b" "b < 0xC2" | "0xC2 \<le> b" "b < 0xE0"
    | "0xE0 \<le> b" "b < 0xF0" | "0xF0 \<le> b" "b < 0xF5" | "0xF5 \<le> b"
    by linarith
  then show ?thesis
  proof cases
    case 1
    with assms show ?thesis by (intro one) (simp_all add: utf8_step_def)
  next
    case 2
    with assms show ?thesis by (simp add: utf8_step_def)
  next
    case 3
    with assms show ?thesis
      by (cases bs) (auto simp add: utf8_step_def intro: two split: if_splits)
  next
    case 4
    then have s: "utf8_step b bs =
        (case bs of
           [] \<Rightarrow> (None, 1)
         | c1 # r \<Rightarrow>
             if \<not> is_cont c1 \<or> (if c1 < 0xA0 then b = 0xE0 else b = 0xED) then (None, 1)
             else (case r of
                     [] \<Rightarrow> (None, 2)
                   | c2 # _ \<Rightarrow>
                       if is_cont c2
                       then (Some ((b - 0xE0) * 4096 + (c1 - 0x80) * 64 + (c2 - 0x80)), 3)
                       else (None, 2)))"
      by (simp add: utf8_step_def)
    from assms have e: "utf8_step b bs = (Some cp, n)" .
    from e obtain c1 c2 r where bs: "bs = c1 # c2 # r"
      unfolding s by (auto split: list.splits if_splits)
    from e [unfolded s] show ?thesis
      by (intro three [of c1 c2 r]) (auto simp add: 4 bs split: if_splits)
  next
    case 5
    then have s: "utf8_step b bs =
        (case bs of
           [] \<Rightarrow> (None, 1)
         | c1 # r \<Rightarrow>
             if \<not> is_cont c1 \<or> (if c1 < 0x90 then b = 0xF0 else b = 0xF4) then (None, 1)
             else (case r of
                     [] \<Rightarrow> (None, 2)
                   | c2 # r' \<Rightarrow>
                       if \<not> is_cont c2 then (None, 2)
                       else (case r' of
                               [] \<Rightarrow> (None, 3)
                             | c3 # _ \<Rightarrow>
                                 if is_cont c3
                                 then (Some ((b - 0xF0) * 262144 + (c1 - 0x80) * 4096 +
                                             (c2 - 0x80) * 64 + (c3 - 0x80)), 4)
                                 else (None, 3))))"
      by (simp add: utf8_step_def)
    from assms have e: "utf8_step b bs = (Some cp, n)" .
    from e obtain c1 c2 c3 r where bs: "bs = c1 # c2 # c3 # r"
      unfolding s by (auto split: list.splits if_splits)
    from e [unfolded s] show ?thesis
      by (intro four [of c1 c2 c3 r]) (auto simp add: 5 bs split: if_splits)
  next
    case 6
    with assms show ?thesis by (simp add: utf8_step_def)
  qed
qed

lemma utf8_step_sound:
  assumes "utf8_step b bs = (Some cp, n)"
  shows "scalar_value cp \<and> 1 \<le> n \<and> n - 1 \<le> length bs \<and>
         utf8_encode_cp cp = b # take (n - 1) bs"
  using assms
proof (cases rule: utf8_step_Some)
  case one
  then show ?thesis by (simp add: scalar_value_def utf8_encode_cp_def)
next
  case (two c1 r)
  define x y where "x = b - 0xC0" and "y = c1 - 0x80"
  from two have b: "b = 0xC0 + x" and c1: "c1 = 0x80 + y" and x: "2 \<le> x" "x < 32" and y: "y < 64"
    by (auto simp add: x_def y_def is_cont_def)
  have cp: "cp = x * 64 + y" using two by (simp add: x_def y_def)
  have r: "128 \<le> cp" "cp < 2048" using x y by (simp_all add: cp)
  have d: "cp div 64 = x" "cp mod 64 = y"
    unfolding cp using divmod_step [OF y] by simp_all
  from r have "utf8_encode_cp cp = [0xC0 + cp div 64, 0x80 + cp mod 64]"
    by (simp add: utf8_encode_cp_def)
  with d b c1 have "utf8_encode_cp cp = [b, c1]" by simp
  moreover from r have "scalar_value cp" by (simp add: scalar_value_def)
  ultimately show ?thesis using two by simp
next
  case (three c1 c2 r)
  define x y z where "x = b - 0xE0" and "y = c1 - 0x80" and "z = c2 - 0x80"
  from three have b: "b = 0xE0 + x" and c1: "c1 = 0x80 + y" and c2: "c2 = 0x80 + z"
    and x: "x < 16" and y: "y < 64" and z: "z < 64"
    by (auto simp add: x_def y_def z_def is_cont_def)
  from three have lo: "x = 0 \<longrightarrow> 32 \<le> y" and sur: "x = 13 \<longrightarrow> y < 32"
    by (auto simp add: x_def y_def is_cont_def)
  have cp: "cp = x * 4096 + y * 64 + z" using three by (simp add: x_def y_def z_def)
  have r: "2048 \<le> cp" "cp < 65536" using x y z lo by (auto simp add: cp)
  have "\<not> (0xD800 \<le> cp \<and> cp \<le> 0xDFFF)"
  proof
    assume a: "0xD800 \<le> cp \<and> cp \<le> 0xDFFF"
    with y z have "x = 13" unfolding cp by linarith
    with sur have "y < 32" by simp
    with \<open>x = 13\<close> z a show False unfolding cp by linarith
  qed
  with r have sc: "scalar_value cp" by (auto simp add: scalar_value_def)
  have d: "cp div 4096 = x" "(cp div 64) mod 64 = y" "cp mod 64 = z"
    unfolding cp using split3 [OF y z, of x] by simp_all
  from r have "utf8_encode_cp cp =
      [0xE0 + cp div 4096, 0x80 + (cp div 64) mod 64, 0x80 + cp mod 64]"
    by (simp add: utf8_encode_cp_def)
  with d b c1 c2 have "utf8_encode_cp cp = [b, c1, c2]" by simp
  with sc three show ?thesis by simp
next
  case (four c1 c2 c3 r)
  define x y z w where "x = b - 0xF0" and "y = c1 - 0x80" and "z = c2 - 0x80" and "w = c3 - 0x80"
  from four have b: "b = 0xF0 + x" and c1: "c1 = 0x80 + y" and c2: "c2 = 0x80 + z"
    and c3: "c3 = 0x80 + w"
    and x: "x < 5" and y: "y < 64" and z: "z < 64" and w: "w < 64"
    by (auto simp add: x_def y_def z_def w_def is_cont_def)
  from four have lo: "x = 0 \<longrightarrow> 16 \<le> y" and hi: "x = 4 \<longrightarrow> y < 16"
    by (auto simp add: x_def y_def is_cont_def)
  have cp: "cp = x * 262144 + y * 4096 + z * 64 + w"
    using four by (simp add: x_def y_def z_def w_def)
  have r: "65536 \<le> cp" "cp < 1114112" using x y z w lo hi by (auto simp add: cp)
  then have sc: "scalar_value cp" by (simp add: scalar_value_def)
  have d: "cp div 262144 = x" "(cp div 4096) mod 64 = y" "(cp div 64) mod 64 = z" "cp mod 64 = w"
    unfolding cp using split4 [OF y z w, of x] by simp_all
  from r have "utf8_encode_cp cp =
      [0xF0 + cp div 262144, 0x80 + (cp div 4096) mod 64, 0x80 + (cp div 64) mod 64,
       0x80 + cp mod 64]"
    by (simp add: utf8_encode_cp_def)
  with d b c1 c2 c3 have "utf8_encode_cp cp = [b, c1, c2, c3]" by simp
  with sc four show ?thesis by simp
qed

lemma utf8_step_encode:
  assumes "scalar_value cp"
  shows "\<exists>b cs. utf8_encode_cp cp = b # cs \<and>
           utf8_step b (cs @ rest) = (Some cp, Suc (length cs))"
proof -
  consider "cp < 0x80" | "0x80 \<le> cp" "cp < 0x800" | "0x800 \<le> cp" "cp < 0x10000"
    | "0x10000 \<le> cp"
    by linarith
  then show ?thesis
  proof cases
    case 1
    then show ?thesis by (simp add: utf8_encode_cp_def utf8_step_def)
  next
    case 2
    define x y where "x = cp div 64" and "y = cp mod 64"
    have cp: "cp = x * 64 + y" by (simp add: x_def y_def)
    have y: "y < 64" by (simp add: y_def)
    from 2 have x: "2 \<le> x" "x < 32" unfolding cp using y by linarith+
    from 2 have e: "utf8_encode_cp cp = [0xC0 + x, 0x80 + y]"
      by (simp add: utf8_encode_cp_def x_def y_def)
    have "utf8_step (0xC0 + x) ((0x80 + y) # rest) = (Some cp, 2)"
      using x y by (simp add: utf8_step_def is_cont_def cp)
    with e show ?thesis by simp
  next
    case 3
    define x y z where "x = cp div 4096" and "y = (cp div 64) mod 64" and "z = cp mod 64"
    have h: "cp div 4096 = cp div 64 div 64"
      using div_mult2_eq [of cp 64 64] by simp
    have m: "cp div 64 = x * 64 + y"
      unfolding x_def y_def h by simp
    have cp: "cp = x * 4096 + y * 64 + z"
    proof -
      have "cp = (cp div 64) * 64 + z" by (simp add: z_def)
      then show ?thesis unfolding m by simp
    qed
    have y: "y < 64" and z: "z < 64" by (simp_all add: y_def z_def)
    from 3 have x: "x < 16" unfolding cp using y z by linarith
    from 3 have lo: "x = 0 \<Longrightarrow> 32 \<le> y" unfolding cp using z by linarith
    from assms 3 have "cp < 0xD800 \<or> 0xDFFF < cp" by (simp add: scalar_value_def)
    then have sur: "x = 13 \<Longrightarrow> y < 32" unfolding cp using y z by linarith
    from 3 have e: "utf8_encode_cp cp = [0xE0 + x, 0x80 + y, 0x80 + z]"
      by (simp add: utf8_encode_cp_def x_def y_def z_def)
    have c: "\<not> (if 0x80 + y < (0xA0::nat) then 0xE0 + x = (0xE0::nat) else 0xE0 + x = (0xED::nat))"
    proof (cases "y < 32")
      case True
      with lo have "x \<noteq> 0" by fastforce
      with True show ?thesis by simp
    next
      case False
      with sur have "x \<noteq> 13" by fastforce
      with False show ?thesis by simp
    qed
    have "utf8_step (0xE0 + x) ((0x80 + y) # (0x80 + z) # rest) = (Some cp, 3)"
      using x y z c by (simp add: utf8_step_def is_cont_def cp)
    with e show ?thesis by simp
  next
    case 4
    define x y z w where "x = cp div 262144" and "y = (cp div 4096) mod 64"
      and "z = (cp div 64) mod 64" and "w = cp mod 64"
    have h2: "cp div 262144 = cp div 4096 div 64"
      using div_mult2_eq [of cp 4096 64] by simp
    have h1: "cp div 4096 = cp div 64 div 64"
      using div_mult2_eq [of cp 64 64] by simp
    have m2: "cp div 4096 = x * 64 + y"
      unfolding x_def y_def h2 by simp
    have m1: "cp div 64 = (cp div 4096) * 64 + z"
      unfolding z_def h1 by simp
    have cp: "cp = x * 262144 + y * 4096 + z * 64 + w"
    proof -
      have "cp = (cp div 64) * 64 + w" by (simp add: w_def)
      then show ?thesis unfolding m1 m2 by simp
    qed
    have y: "y < 64" and z: "z < 64" and w: "w < 64" by (simp_all add: y_def z_def w_def)
    from assms 4 have "cp < 0x110000" by (simp add: scalar_value_def)
    then have x: "x < 5" and hi: "x = 4 \<Longrightarrow> y < 16" unfolding cp using y z w by linarith+
    from 4 have lo: "x = 0 \<Longrightarrow> 16 \<le> y" unfolding cp using z w by linarith
    from 4 have e: "utf8_encode_cp cp = [0xF0 + x, 0x80 + y, 0x80 + z, 0x80 + w]"
      by (simp add: utf8_encode_cp_def x_def y_def z_def w_def)
    have c: "\<not> (if 0x80 + y < (0x90::nat) then 0xF0 + x = (0xF0::nat) else 0xF0 + x = (0xF4::nat))"
    proof (cases "y < 16")
      case True
      with lo have "x \<noteq> 0" by fastforce
      with True show ?thesis by simp
    next
      case False
      with hi have "x \<noteq> 4" by fastforce
      with False show ?thesis by simp
    qed
    have "utf8_step (0xF0 + x) ((0x80 + y) # (0x80 + z) # (0x80 + w) # rest) = (Some cp, 4)"
      using x y z w c by (simp add: utf8_step_def is_cont_def cp)
    with e show ?thesis by simp
  qed
qed

lemma decode_utf8_encoded:
  assumes "list_all scalar_value u"
  shows "decode_utf8 h (utf8_encode u @ rest) =
           (case decode_utf8 h rest of Inl e \<Rightarrow> Inl e | Inr t \<Rightarrow> Inr (u @ t))"
  using assms
proof (induction u)
  case Nil
  show ?case by (simp add: utf8_encode_def split: sum.split)
next
  case (Cons cp u)
  then have sc: "scalar_value cp" and IH: "decode_utf8 h (utf8_encode u @ rest) =
           (case decode_utf8 h rest of Inl e \<Rightarrow> Inl e | Inr t \<Rightarrow> Inr (u @ t))"
    by simp_all
  from utf8_step_encode [OF sc, of "utf8_encode u @ rest"] obtain b cs where
    e: "utf8_encode_cp cp = b # cs" and
    s: "utf8_step b (cs @ utf8_encode u @ rest) = (Some cp, Suc (length cs))"
    by blast
  have "utf8_encode (cp # u) @ rest = b # (cs @ utf8_encode u @ rest)"
    by (simp add: utf8_encode_def e)
  then have "decode_utf8 h (utf8_encode (cp # u) @ rest) =
      (case decode_utf8 h (utf8_encode u @ rest) of Inl e \<Rightarrow> Inl e | Inr t \<Rightarrow> Inr (cp # t))"
    by (simp add: s Let_def)
  with IH show ?case by (simp split: sum.split)
qed

lemma decode_utf8_strict_sound:
  "decode_utf8 Strict bs = Inr t \<Longrightarrow> list_all scalar_value t \<and> utf8_encode t = bs"
proof (induction bs arbitrary: t rule: length_induct)
  case (1 bs)
  show ?case
  proof (cases bs)
    case Nil
    with 1(2) show ?thesis by (simp add: utf8_encode_def)
  next
    case (Cons b rest)
    obtain r n where st: "utf8_step b rest = (r, n)" by (cases "utf8_step b rest")
    show ?thesis
    proof (cases r)
      case None
      with Cons 1(2) st show ?thesis by (simp add: Let_def)
    next
      case (Some cp)
      from utf8_step_sound [OF st [unfolded Some]] have
        sc: "scalar_value cp" and n: "1 \<le> n" "n - 1 \<le> length rest" and
        e: "utf8_encode_cp cp = b # take (n - 1) rest" by simp_all
      from Cons 1(2) st Some obtain t' where
        t': "decode_utf8 Strict (drop (n - 1) rest) = Inr t'" and t: "t = cp # t'"
        by (auto simp add: Let_def split: sum.splits)
      have "length (drop (n - 1) rest) < length bs" using Cons by simp
      with 1(1) t' have "list_all scalar_value t' \<and> utf8_encode t' = drop (n - 1) rest"
        by blast
      with sc e t Cons show ?thesis
        by (simp add: utf8_encode_def)
    qed
  qed
qed

lemma decode_utf8_strict_complete:
  "list_all scalar_value u \<Longrightarrow> decode_utf8 h (utf8_encode u) = Inr u"
  using decode_utf8_encoded [of u h "[]"] by simp

lemma decode_replace_spec:
  "\<exists>t. decode_utf8 Replace bs = Inr t \<and>
     (list_all scalar_value t \<and> utf8_encode t = bs \<or>
      (\<nexists>u. list_all scalar_value u \<and> utf8_encode u = bs) \<and> 0xFFFD \<in> set t)"
proof (cases "decode_utf8 Strict bs")
  case (Inr t)
  from decode_utf8_strict_sound [OF Inr] decode_utf8_strict_ok [OF Inr] show ?thesis by blast
next
  case (Inl x)
  have "\<nexists>u. list_all scalar_value u \<and> utf8_encode u = bs"
  proof
    assume "\<exists>u. list_all scalar_value u \<and> utf8_encode u = bs"
    then obtain u where "list_all scalar_value u" "utf8_encode u = bs" by blast
    with decode_utf8_strict_complete [of u Strict] Inl show False by simp
  qed
  moreover from decode_utf8_strict_fail [OF Inl] obtain t where
    "decode_utf8 Replace bs = Inr t" "0xFFFD \<in> set t" by (auto simp add: REPLACEMENT_def)
  ultimately show ?thesis by blast
qed

subsection \<open>One job\<close>

lemma decode_replace_total: "\<exists>t. decode b Replace = Inr t"
  by (simp add: decode_def decode_utf8_replace_total)

lemma decode_invalid_lead:
  assumes "0x80 \<le> unat x \<and> unat x < 0xC2 \<or> 0xF5 \<le> unat x"
  shows "\<exists>t. decode b2 Replace = Inr t \<and> decode (x # b2) Replace = Inr (0xFFFD # t)"
proof -
  obtain t where t: "decode b2 Replace = Inr t"
    using decode_replace_total by blast
  from assms have "utf8_step (unat x) (map unat b2) = (None, 1)"
    by (auto simp add: utf8_step_def)
  with t have "decode (x # b2) Replace = Inr (0xFFFD # t)"
    by (simp add: decode_def REPLACEMENT_def)
  with t show ?thesis by blast
qed

lemma decode_valid_prefix:
  assumes "list_all scalar_value u" "utf8_encode u = map unat b1"
  shows "\<exists>t. decode b2 Replace = Inr t \<and> decode (b1 @ b2) Replace = Inr (u @ t)"
proof -
  obtain t where t: "decode b2 Replace = Inr t"
    using decode_replace_total by blast
  from decode_utf8_encoded [OF assms(1), of Replace "map unat b2"] assms(2) t
  have "decode (b1 @ b2) Replace = Inr (u @ t)"
    by (simp add: decode_def)
  with t show ?thesis by blast
qed

lemma subprocess_run_exn:
  "subprocess_run p t = Inl e \<Longrightarrow> e = OSError \<or> e = TimeoutExpired (partial_out p) (partial_err p)"
  by (simp add: subprocess_run_def split: if_splits option.splits)

lemma capture_completed:
  assumes "subprocess_run p TIMEOUT = Inr proc"
  shows "\<exists>out err. decode (or_empty (stdout proc)) Replace = Inr out \<and>
           decode (or_empty (stderr proc)) Replace = Inr err \<and>
           capture p = Inr (out, err, returncode proc)"
proof -
  obtain out where out: "decode (or_empty (stdout proc)) Replace = Inr out"
    using decode_replace_total by blast
  obtain err where err: "decode (or_empty (stderr proc)) Replace = Inr err"
    using decode_replace_total by blast
  from assms out err have "capture p = Inr (out, err, returncode proc)"
    by (simp add: capture_def)
  with out err show ?thesis by blast
qed

lemma capture_timeout:
  assumes "subprocess_run p TIMEOUT = Inl (TimeoutExpired a b)"
  shows "\<exists>out err. decode (or_empty a) Replace = Inr out \<and>
           decode (or_empty b) Replace = Inr err \<and>
           capture p = Inr (out, err @ NL # str ''TIMEOUT'', 124)"
proof -
  obtain out where out: "decode (or_empty a) Replace = Inr out"
    using decode_replace_total by blast
  obtain err where err: "decode (or_empty b) Replace = Inr err"
    using decode_replace_total by blast
  from assms out err have "capture p = Inr (out, err @ NL # str ''TIMEOUT'', 124)"
    by (simp add: capture_def)
  with out err show ?thesis by blast
qed

lemma capture_oserror:
  assumes "subprocess_run p TIMEOUT = Inl OSError"
  shows "capture p = Inl OSError"
  using assms by (simp add: capture_def)

lemma capture_exn: "capture p = Inl e \<Longrightarrow> e = OSError \<and> \<not> starts p"
proof -
  assume c: "capture p = Inl e"
  show ?thesis
  proof (cases "subprocess_run p TIMEOUT")
    case (Inr proc)
    with capture_completed c show ?thesis by fastforce
  next
    case (Inl x)
    then consider "x = OSError" | "x = TimeoutExpired (partial_out p) (partial_err p)"
      using subprocess_run_exn by blast
    then show ?thesis
    proof cases
      case 1
      with Inl c have "e = OSError" by (simp add: capture_oserror)
      moreover from Inl 1 have "\<not> starts p"
        by (simp add: subprocess_run_def split: if_splits option.splits)
      ultimately show ?thesis by simp
    next
      case 2
      with Inl capture_timeout c show ?thesis by fastforce
    qed
  qed
qed

lemma capture_starts:
  assumes "starts p"
  shows "\<exists>out err. capture p = Inr (out, err, exit_code_of p)"
proof (cases "subprocess_run p TIMEOUT")
  case (Inr proc)
  with assms have "returncode proc = exit_code_of p"
    by (auto simp add: subprocess_run_def exit_code_of_def TIMEOUT_def split: option.splits if_splits)
  with capture_completed [OF Inr] show ?thesis by auto
next
  case (Inl x)
  with assms have x: "x = TimeoutExpired (partial_out p) (partial_err p)"
    by (auto simp add: subprocess_run_def split: option.splits if_splits)
  from Inl assms have "exit_code_of p = 124"
    by (auto simp add: subprocess_run_def exit_code_of_def TIMEOUT_def split: option.splits if_splits)
  with capture_timeout [OF Inl [unfolded x]] show ?thesis by auto
qed

lemma capture_not_starts: "\<not> starts p \<Longrightarrow> capture p = Inl OSError"
  by (simp add: capture_oserror subprocess_run_def)

lemma run_agent_fst: "fst (run_agent e phase idx prompt fs) = job_result e phase idx prompt"
  by (simp add: job_result_def run_agent_def write_text_def split: sum.splits prod.splits)

lemma run_agent_not_starts:
  "\<not> starts (spawn e phase idx (agent_cmd prompt)) \<Longrightarrow>
   run_agent e phase idx prompt fs = (Inl OSError, fs)"
  by (simp add: run_agent_def capture_not_starts)

lemma run_agent_Inr:
  assumes "run_agent e phase idx prompt fs = (Inr (p, code), fs')"
  shows "\<exists>out err. capture (spawn e phase idx (agent_cmd prompt)) = Inr (out, err, code) \<and>
           p = str_path (out_file e phase idx) \<and>
           fs' = fs(p \<mapsto> join [NL] (report_body phase idx prompt code out err))"
  using assms
  by (auto simp add: run_agent_def write_text_def split: sum.splits prod.splits if_splits)

lemma run_agent_ok:
  assumes "starts (spawn e phase idx (agent_cmd prompt))"
      and "\<And>data. writable e (str_path (out_file e phase idx)) data"
  shows "fst (run_agent e phase idx prompt fs) =
           Inr (str_path (out_file e phase idx), exit_code_of (spawn e phase idx (agent_cmd prompt)))"
proof -
  from capture_starts [OF assms(1)] obtain out err where
    "capture (spawn e phase idx (agent_cmd prompt)) =
       Inr (out, err, exit_code_of (spawn e phase idx (agent_cmd prompt)))" by blast
  with assms(2) show ?thesis
    by (simp add: run_agent_def write_text_def)
qed

lemma run_agent_exn: "fst (run_agent e phase idx prompt fs) = Inl exc \<Longrightarrow> exc = OSError"
  by (auto simp add: run_agent_def write_text_def split: sum.splits prod.splits if_splits
      dest: capture_exn)

lemma run_jobs_fst:
  "fst (run_jobs e name prompts order fs) =
     map (\<lambda>i. (i, job_result e name (int i + 1) (prompts ! i))) order"
proof (induction order arbitrary: fs)
  case Nil
  show ?case by simp
next
  case (Cons i order)
  obtain r fs1 where r: "run_agent e name (int i + 1) (prompts ! i) fs = (r, fs1)"
    by (cases "run_agent e name (int i + 1) (prompts ! i) fs")
  then have "r = job_result e name (int i + 1) (prompts ! i)"
    using run_agent_fst [of e name "int i + 1" "prompts ! i" fs] by simp
  with r Cons [of fs1] show ?case
    by (simp add: split_beta)
qed

lemma collect_all_ok:
  "\<forall>r\<in>set rs. \<exists>v. snd r = Inr v \<Longrightarrow>
   fst (collect name rs acc s) = Inr (acc @ map (\<lambda>r. projr (snd r)) rs)"
proof (induction name rs acc s rule: collect.induct)
  case (1 name results s)
  show ?case by simp
next
  case (2 name i exc rs results s)
  then show ?case by simp
next
  case (3 name i path code rs results s)
  then show ?case by simp
qed

lemma collect_exn:
  "fst (collect name rs acc s) = Inl exc \<Longrightarrow> \<exists>i. (i, Inl exc) \<in> set rs"
  by (induction name rs acc s rule: collect.induct) auto

lemma collect_some_exn:
  "(i, Inl exc) \<in> set rs \<Longrightarrow> \<exists>exc'. fst (collect name rs acc s) = Inl exc'"
  by (induction name rs acc s rule: collect.induct) auto

subsection \<open>One phase\<close>

lemma completion_order_mset: "completion_order k order \<Longrightarrow> mset order = mset [0..<k]"
proof -
  assume "completion_order k order"
  then have "distinct order" and "set order = set [0..<k]"
    by (simp_all add: completion_order_def)
  then show ?thesis
    using set_eq_iff_mset_eq_distinct [of order "[0..<k]"] by simp
qed

lemma completion_order_length: "completion_order k order \<Longrightarrow> length order = k"
  using completion_order_mset [of k order] mset_eq_length by fastforce

lemma collect_fst_state:
  "fst (collect name rs acc s) = fst (collect name rs acc s')"
proof (induction rs arbitrary: acc s s')
  case Nil
  show ?case by simp
next
  case (Cons r rs)
  obtain i x where r: "r = (i, x)" by (cases r)
  show ?case
  proof (cases x)
    case (Inl exc)
    with r show ?thesis by simp
  next
    case (Inr v)
    obtain p c where "v = (p, c)" by (cases v)
    with r Inr Cons show ?thesis by simp
  qed
qed

lemma run_phase_fst:
  "prompts \<noteq> [] \<Longrightarrow>
   fst (run_phase e name prompts s) = fst (collect name (phase_results e name prompts) [] s)"
proof -
  assume ne: "prompts \<noteq> []"
  let ?s1 = "emit (Printed (str ''Running phase: '' @ name @ str '' ('' @
                              str_int (int (length prompts)) @ str '' agents)'')) s"
  let ?s2 = "fold (\<lambda>i. emit (Submitted name (int i + 1))) [0..<length prompts] ?s1"
  obtain rs fs where rj: "run_jobs e name prompts (as_completed e name) (files ?s2) = (rs, fs)"
    by (cases "run_jobs e name prompts (as_completed e name) (files ?s2)")
  then have rs: "rs = phase_results e name prompts"
    using run_jobs_fst [of e name prompts "as_completed e name" "files ?s2"]
    by (simp add: phase_results_def)
  from ne rj have "run_phase e name prompts s = collect name rs [] (?s2\<lparr>files := fs\<rparr>)"
    by (simp add: run_phase_def Let_def)
  with rs show ?thesis
    using collect_fst_state by simp
qed

lemma run_phase_empty: "fst (run_phase e name [] s) = Inl ValueError"
  by (simp add: run_phase_def Let_def)

subsection \<open>Numbers and file names\<close>

lemma digits_range: "c \<in> set (digits n) \<Longrightarrow> 48 \<le> c \<and> c \<le> 57"
proof (induction n rule: digits.induct)
  case (1 n)
  show ?case
  proof (cases "n < 10")
    case True
    with 1(2) show ?thesis by (simp add: digits.simps [of n])
  next
    case False
    with 1(2) have "c \<in> set (digits (n div 10)) \<or> c = 48 + n mod 10"
      by (auto simp add: digits.simps [of n])
    then show ?thesis
    proof
      assume "c \<in> set (digits (n div 10))"
      with 1(1) False show ?thesis by simp
    next
      assume "c = 48 + n mod 10"
      moreover have "n mod 10 < 10" by simp
      ultimately show ?thesis by linarith
    qed
  qed
qed

lemma digits_nonempty: "digits n \<noteq> []"
  by (simp add: digits.simps [of n])

lemma digit_value_digits: "digit_value (digits n) = n"
proof (induction n rule: digits.induct)
  case (1 n)
  show ?case
  proof (cases "n < 10")
    case True
    then show ?thesis by (simp add: digits.simps [of n] digit_value_def)
  next
    case False
    with 1 have "digit_value (digits (n div 10)) = n div 10" by simp
    with False show ?thesis
      by (simp add: digits.simps [of n] digit_value_def)
  qed
qed

lemma digit_value_zeros: "digit_value (replicate k 48 @ ds) = digit_value ds"
proof (induction k)
  case 0
  show ?case by simp
next
  case (Suc k)
  then show ?case
    by (simp add: digit_value_def)
qed

lemma fmt_0d_chars: "c \<in> set (fmt_0d w i) \<Longrightarrow> c = 45 \<or> 48 \<le> c \<and> c \<le> 57"
  by (auto simp add: fmt_0d_def Let_def dest: digits_range split: if_splits)

lemma fmt_0d_nonneg:
  "0 \<le> i \<Longrightarrow> fmt_0d w i = replicate (w - length (digits (nat i))) 48 @ digits (nat i)"
  by (simp add: fmt_0d_def Let_def)

lemma fmt_0d_neg:
  "i < 0 \<Longrightarrow> fmt_0d w i = 45 # replicate (w - 1 - length (digits (nat (- i)))) 48 @ digits (nat (- i))"
  by (simp add: fmt_0d_def Let_def)

lemma padded_head: "hd (replicate k 48 @ digits n) \<noteq> (45::nat)"
proof (cases k)
  case 0
  obtain c cs where "digits n = c # cs" using digits_nonempty [of n] by (cases "digits n") auto
  moreover from this have "48 \<le> c" using digits_range [of c n] by simp
  ultimately show ?thesis using 0 by simp
next
  case (Suc j)
  then show ?thesis by simp
qed

lemma fmt_0d_inj: "fmt_0d w i = fmt_0d w j \<Longrightarrow> i = j"
proof -
  assume eq: "fmt_0d w i = fmt_0d w j"
  have neg_hd: "hd (fmt_0d w x) = 45" if "x < 0" for x
    using that by (simp add: fmt_0d_neg)
  have pos_hd: "hd (fmt_0d w x) \<noteq> 45" if "0 \<le> x" for x
    using that padded_head by (simp add: fmt_0d_nonneg)
  show ?thesis
  proof (cases "i < 0")
    case True
    have "j < 0"
    proof (rule ccontr)
      assume "\<not> j < 0"
      then have "hd (fmt_0d w j) \<noteq> 45" using pos_hd by simp
      with eq neg_hd [OF True] show False by simp
    qed
    with True eq have
      "digit_value (replicate (w - 1 - length (digits (nat (- i)))) 48 @ digits (nat (- i))) =
       digit_value (replicate (w - 1 - length (digits (nat (- j)))) 48 @ digits (nat (- j)))"
      by (simp add: fmt_0d_neg)
    then have "nat (- i) = nat (- j)"
      by (simp add: digit_value_zeros digit_value_digits)
    with True \<open>j < 0\<close> show ?thesis by simp
  next
    case False
    have "\<not> j < 0"
    proof
      assume "j < 0"
      then have "hd (fmt_0d w j) = 45" by (rule neg_hd)
      with eq pos_hd [of i] False show False by simp
    qed
    with False eq have
      "digit_value (replicate (w - length (digits (nat i))) 48 @ digits (nat i)) =
       digit_value (replicate (w - length (digits (nat j))) 48 @ digits (nat j))"
      by (simp add: fmt_0d_nonneg)
    then have "nat i = nat j"
      by (simp add: digit_value_zeros digit_value_digits)
    with False \<open>\<not> j < 0\<close> show ?thesis by simp
  qed
qed

text \<open>Splitting a text at the first or at the last occurrence of a character is unique.\<close>

lemma split_first_unique:
  "c \<notin> set d1 \<Longrightarrow> c \<notin> set d2 \<Longrightarrow> d1 @ c # r1 = d2 @ c # r2 \<Longrightarrow> d1 = d2 \<and> r1 = r2"
proof (induction d1 arbitrary: d2)
  case Nil
  then show ?case by (cases d2) auto
next
  case (Cons x d1)
  then show ?case by (cases d2) auto
qed

lemma split_last_unique:
  assumes "c \<notin> set d1" "c \<notin> set d2" "r1 @ c # d1 = r2 @ c # d2"
  shows "r1 = r2 \<and> d1 = d2"
proof -
  from assms(3) have "rev (r1 @ c # d1) = rev (r2 @ c # d2)" by simp
  then have "rev d1 @ c # rev r1 = rev d2 @ c # rev r2" by simp
  with assms(1,2) have "rev d1 = rev d2 \<and> rev r1 = rev r2"
    using split_first_unique [of c "rev d1" "rev d2" "rev r1" "rev r2"] by simp
  then show ?thesis by simp
qed

lemma str_underscore: "str ''_'' = [95]"
  by (simp add: str_def)

lemma str_md: "str ''.md'' = [46, 109, 100]"
  by (simp add: str_def)

lemma fmt_0d_no_underscore: "95 \<notin> set (fmt_0d w i)"
  using fmt_0d_chars [of 95 w i] by auto

lemma out_name_inj:
  assumes "out_name p1 i1 (strftime d1) = out_name p2 i2 (strftime d2)"
  shows "p1 = p2 \<and> i1 = i2"
proof -
  let ?ymd = "\<lambda>d. fmt_0d 4 (int (year d)) @ fmt_0d 2 (int (month d)) @ fmt_0d 2 (int (day d))"
  let ?hms = "\<lambda>d. fmt_0d 2 (int (hour d)) @ fmt_0d 2 (int (minute d)) @ fmt_0d 2 (int (second d)) @
                  [46, 109, 100]"
  have n: "out_name p i (strftime d) = (p @ 95 # fmt_0d 2 i @ 95 # ?ymd d) @ 95 # ?hms d" for p i d
    by (simp add: out_name_def strftime_def str_underscore str_md)
  have hms: "95 \<notin> set (?hms d)" for d
    using fmt_0d_no_underscore by simp
  have ymd: "95 \<notin> set (?ymd d)" for d
    using fmt_0d_no_underscore by simp
  from assms have "(p1 @ 95 # fmt_0d 2 i1 @ 95 # ?ymd d1) @ 95 # ?hms d1 =
                   (p2 @ 95 # fmt_0d 2 i2 @ 95 # ?ymd d2) @ 95 # ?hms d2"
    by (simp only: n)
  then have "p1 @ 95 # fmt_0d 2 i1 @ 95 # ?ymd d1 = p2 @ 95 # fmt_0d 2 i2 @ 95 # ?ymd d2"
    using split_last_unique [OF hms hms] by blast
  then have "(p1 @ 95 # fmt_0d 2 i1) @ 95 # ?ymd d1 = (p2 @ 95 # fmt_0d 2 i2) @ 95 # ?ymd d2"
    by simp
  then have "p1 @ 95 # fmt_0d 2 i1 = p2 @ 95 # fmt_0d 2 i2"
    using split_last_unique [OF ymd ymd] by blast
  then have "p1 = p2 \<and> fmt_0d 2 i1 = fmt_0d 2 i2"
    using split_last_unique [OF fmt_0d_no_underscore fmt_0d_no_underscore] by blast
  then show ?thesis using fmt_0d_inj by blast
qed

lemma out_name_chars:
  assumes "\<forall>c\<in>set phase. 97 \<le> c \<and> c \<le> 122"
      and "c \<in> set (out_name phase idx (strftime d))"
  shows "97 \<le> c \<and> c \<le> 122 \<or> 48 \<le> c \<and> c \<le> 57 \<or> c = 95 \<or> c = 45 \<or> c = 46"
proof -
  from assms(2) consider "c \<in> set phase" | w i where "c \<in> set (fmt_0d w i)"
    | "c \<in> {95, 46, 109, 100}"
    by (auto simp add: out_name_def strftime_def str_def)
  then show ?thesis
  proof cases
    case 1
    with assms(1) show ?thesis by simp
  next
    case 2
    then show ?thesis using fmt_0d_chars by blast
  next
    case 3
    then show ?thesis by auto
  qed
qed

lemma ascii_lower_plain: "\<forall>c\<in>set s. \<not> (65 \<le> c \<and> c \<le> 90) \<Longrightarrow> ascii_lower s = s"
  by (simp add: ascii_lower_def map_idI)

subsection \<open>Paths of plain names\<close>

lemma split_on_nonempty: "split_on c s \<noteq> []"
  by (induction s) (auto split: list.splits)

lemma split_on_absent: "c \<notin> set s \<Longrightarrow> split_on c s = [s]"
  by (induction s) auto

lemma path_names_plain:
  assumes "SEP \<notin> set n" "n \<noteq> []" "n \<noteq> str ''.''"
  shows "path_names n = [n]"
  using assms by (simp add: path_names_def split_on_absent)

lemma path_root_plain:
  assumes "SEP \<notin> set n"
  shows "path_root n = []"
proof (cases n)
  case Nil
  then show ?thesis by (simp add: path_root_def)
next
  case (Cons x xs)
  with assms have "x \<noteq> SEP" by auto
  with Cons show ?thesis by (cases xs) (simp_all add: path_root_def)
qed

lemma joinpath_plain:
  assumes "SEP \<notin> set n" "n \<noteq> []" "n \<noteq> str ''.''"
  shows "joinpath p n = Path (root p) (names p @ [n])"
  using assms by (simp add: joinpath_def path_root_plain path_names_plain)

lemma join_snoc: "join sep (xs @ [n]) = (if xs = [] then n else join sep xs @ sep @ n)"
proof (induction sep xs rule: join.induct)
  case (1 sep)
  show ?case by simp
next
  case (2 sep x)
  show ?case by simp
next
  case (3 sep x y ys)
  then show ?case by simp
qed

lemma str_path_snoc_inj:
  "str_path (Path r (ns @ [n1])) = str_path (Path r (ns @ [n2])) \<Longrightarrow> n1 = n2"
  by (simp add: str_path_def join_snoc split: if_splits)

lemma out_name_plain:
  assumes "SEP \<notin> set phase"
  shows "SEP \<notin> set (out_name phase idx (strftime d)) \<and> out_name phase idx (strftime d) \<noteq> [] \<and>
         out_name phase idx (strftime d) \<noteq> str ''.''"
proof -
  have f: "SEP \<notin> set (fmt_0d w i)" for w i
    using fmt_0d_chars [of SEP w i] by (auto simp add: SEP_def)
  have "SEP \<notin> set (out_name phase idx (strftime d))"
    using assms f by (simp add: out_name_def strftime_def str_def SEP_def)
  moreover have "length (out_name phase idx (strftime d)) \<ge> 3"
    by (simp add: out_name_def str_def)
  then have "out_name phase idx (strftime d) \<noteq> [] \<and> out_name phase idx (strftime d) \<noteq> str ''.''"
    by (auto simp add: str_def)
  ultimately show ?thesis by simp
qed

lemma out_file_plain:
  assumes "SEP \<notin> set phase"
  shows "out_file e phase idx =
           Path (root (OUT_DIR e))
             (names (OUT_DIR e) @ [out_name phase idx (strftime (now e phase idx))])"
  using out_name_plain [OF assms] by (simp add: out_file_def joinpath_plain)

lemma artifact_paths_distinct:
  assumes "SEP \<notin> set p1" "SEP \<notin> set p2" "(p1, i1) \<noteq> (p2, i2)"
  shows "str_path (joinpath dir (out_name p1 i1 (strftime d1))) \<noteq>
         str_path (joinpath dir (out_name p2 i2 (strftime d2)))"
proof
  assume eq: "str_path (joinpath dir (out_name p1 i1 (strftime d1))) =
              str_path (joinpath dir (out_name p2 i2 (strftime d2)))"
  have j: "joinpath dir (out_name p i (strftime d)) =
           Path (root dir) (names dir @ [out_name p i (strftime d)])" if "SEP \<notin> set p" for p i d
    using out_name_plain [OF that] by (simp add: joinpath_plain)
  from eq assms(1,2) have "out_name p1 i1 (strftime d1) = out_name p2 i2 (strftime d2)"
    using str_path_snoc_inj by (simp add: j)
  then have "p1 = p2 \<and> i1 = i2" by (rule out_name_inj)
  with assms(3) show False by simp
qed

subsection \<open>Reading a report back\<close>

lemma parse_int_str_int: "parse_int (str_int i) = Some i"
proof -
  have all: "list_all (\<lambda>d. 48 \<le> d \<and> d \<le> 57) (digits n)" for n
    using digits_range by (auto simp add: list_all_iff)
  show ?thesis
  proof (cases "i < 0")
    case True
    then show ?thesis
      using all [of "nat (- i)"] digits_nonempty [of "nat (- i)"]
      by (simp add: str_int_def digit_value_digits)
  next
    case False
    obtain c cs where d: "digits (nat i) = c # cs"
      using digits_nonempty [of "nat i"] by (cases "digits (nat i)") auto
    then have "48 \<le> c" using digits_range [of c "nat i"] by simp
    then have "c \<noteq> 45" by simp
    moreover have "list_all (\<lambda>d. 48 \<le> d \<and> d \<le> 57) (c # cs)"
      using all [of "nat i"] d by simp
    moreover have "digit_value (c # cs) = nat i"
      using digit_value_digits [of "nat i"] d by simp
    ultimately show ?thesis using False d
      by (simp add: str_int_def)
  qed
qed

lemma split_on_append: "split_on c (a @ c # b) = split_on c a @ split_on c b"
proof (induction a)
  case Nil
  show ?case by simp
next
  case (Cons x a)
  obtain p ps where "split_on c a = p # ps"
    using split_on_nonempty [of c a] by (cases "split_on c a") auto
  with Cons show ?case by simp
qed

lemma split_on_join:
  "ls \<noteq> [] \<Longrightarrow> split_on c (join [c] ls) = concat (map (split_on c) ls)"
proof (induction "[c]" ls rule: join.induct)
  case 1
  then show ?case by simp
next
  case (2 x)
  show ?case by simp
next
  case (3 x y ys)
  then show ?case by (simp add: split_on_append)
qed

lemma join_split_on: "join [c] (split_on c s) = s"
proof (induction s)
  case Nil
  show ?case by simp
next
  case (Cons x s)
  obtain p ps where ps: "split_on c s = p # ps"
    using split_on_nonempty [of c s] by (cases "split_on c s") auto
  show ?case
  proof (cases "x = c")
    case True
    with Cons ps show ?thesis by simp
  next
    case False
    with Cons ps show ?thesis by (cases ps) auto
  qed
qed

lemma takeWhile_fence: "FENCE \<notin> set xs \<Longrightarrow> takeWhile (\<lambda>l. l \<noteq> FENCE) (xs @ FENCE # ys) = xs"
  by (induction xs) auto

lemma str_int_chars: "c \<in> set (str_int i) \<Longrightarrow> c = 45 \<or> 48 \<le> c \<and> c \<le> 57"
  by (auto simp add: str_int_def dest: digits_range split: if_splits)

lemma split_report_body:
  assumes "NL \<notin> set phase" "NL \<notin> set prompt"
  shows "split_on NL (join [NL] (report_body phase idx prompt code out err)) =
           [str ''# '' @ phase @ str '' Agent '' @ fmt_0d 2 idx, [],
            str ''- Prompt: '' @ prompt, str ''- Exit code: '' @ str_int code, [],
            str ''## Stdout'', FENCE] @
           split_on NL (strip out) @
           [FENCE, [], str ''## Stderr'', FENCE] @
           split_on NL (strip err) @ [FENCE, []]"
proof -
  have f: "NL \<notin> set (fmt_0d 2 idx)"
    using fmt_0d_chars [of NL 2 idx] by (auto simp add: NL_def)
  have s: "NL \<notin> set (str_int code)"
    using str_int_chars [of NL code] by (auto simp add: NL_def)
  have l1: "split_on NL (str ''# '' @ phase @ str '' Agent '' @ fmt_0d 2 idx) =
              [str ''# '' @ phase @ str '' Agent '' @ fmt_0d 2 idx]"
    using assms(1) f by (intro split_on_absent) (simp add: str_def NL_def)
  have l2: "split_on NL (str ''- Prompt: '' @ prompt) = [str ''- Prompt: '' @ prompt]"
    using assms(2) by (intro split_on_absent) (simp add: str_def NL_def)
  have l3: "split_on NL (str ''- Exit code: '' @ str_int code) = [str ''- Exit code: '' @ str_int code]"
    using s by (intro split_on_absent) (simp add: str_def NL_def)
  have l4: "split_on NL (str ''## Stdout'') = [str ''## Stdout'']"
    by (intro split_on_absent) (simp add: str_def NL_def)
  have l5: "split_on NL (str ''## Stderr'') = [str ''## Stderr'']"
    by (intro split_on_absent) (simp add: str_def NL_def)
  have l6: "split_on NL FENCE = [FENCE]"
    by (intro split_on_absent) (simp add: FENCE_def NL_def)
  have "split_on NL (join [NL] (report_body phase idx prompt code out err)) =
          concat (map (split_on NL) (report_body phase idx prompt code out err))"
    by (rule split_on_join) (simp add: report_body_def)
  also have "\<dots> = [str ''# '' @ phase @ str '' Agent '' @ fmt_0d 2 idx, [],
            str ''- Prompt: '' @ prompt, str ''- Exit code: '' @ str_int code, [],
            str ''## Stdout'', FENCE] @
           split_on NL (strip out) @
           [FENCE, [], str ''## Stderr'', FENCE] @
           split_on NL (strip err) @ [FENCE, []]"
    by (simp add: report_body_def l1 l2 l3 l4 l5 l6)
  finally show ?thesis .
qed

lemma read_report_body:
  assumes "NL \<notin> set phase" "NL \<notin> set prompt" "FENCE \<notin> set (split_on NL (strip out))"
  shows "read_report (join [NL] (report_body phase idx prompt code out err)) =
           Some (code, prompt, strip out, strip err)"
proof -
  let ?so = "split_on NL (strip out)"
  let ?se = "split_on NL (strip err)"
  let ?rest = "?so @ FENCE # [] # str ''## Stderr'' # FENCE # ?se @ [FENCE, []]"
  have tw: "takeWhile (\<lambda>l. l \<noteq> FENCE) ?rest = ?so"
    using assms(3) by (rule takeWhile_fence)
  have dr: "drop (length ?so) ?rest = FENCE # [] # str ''## Stderr'' # FENCE # ?se @ [FENCE, []]"
    by simp
  have len: "3 \<le> length (?se @ [FENCE, []])"
    using split_on_nonempty [of NL "strip err"] by (cases ?se) auto
  have tk: "take (length (?se @ [FENCE, []]) - 2) (?se @ [FENCE, []]) = ?se"
    by simp
  have p: "take 10 (str ''- Prompt: '' @ prompt) = str ''- Prompt: ''"
          "drop 10 (str ''- Prompt: '' @ prompt) = prompt"
    by (simp_all add: str_def)
  have c: "take 13 (str ''- Exit code: '' @ str_int code) = str ''- Exit code: ''"
          "drop 13 (str ''- Exit code: '' @ str_int code) = str_int code"
    by (simp_all add: str_def)
  have "split_on NL (join [NL] (report_body phase idx prompt code out err)) =
          (str ''# '' @ phase @ str '' Agent '' @ fmt_0d 2 idx) # [] #
          (str ''- Prompt: '' @ prompt) # (str ''- Exit code: '' @ str_int code) # [] #
          str ''## Stdout'' # FENCE # ?rest"
    using split_report_body [OF assms(1,2)] by simp
  then have "read_report (join [NL] (report_body phase idx prompt code out err)) =
          Some (code, prompt, join [NL] ?so, join [NL] ?se)"
    unfolding read_report_def
    by (simp only: list.case Let_def tw dr len tk p c parse_int_str_int option.case if_True simp_thms)
  then show ?thesis by (simp add: join_split_on)
qed

subsection \<open>Timeouts\<close>


lemma strip_keeps_marker:
  assumes "m \<noteq> []" "\<not> isspace (hd m)" "\<not> isspace (last m)"
  shows "\<exists>pre. strip (x @ m) = pre @ m"
proof -
  have "\<exists>pre. dropWhile isspace (x @ m) = pre @ m"
  proof (cases "\<forall>c\<in>set x. isspace c")
    case True
    then have "dropWhile isspace (x @ m) = dropWhile isspace m"
      by (simp add: dropWhile_append2)
    also have "\<dots> = m" using assms(1,2) by (cases m) auto
    finally show ?thesis by simp
  next
    case False
    then have "dropWhile isspace (x @ m) = dropWhile isspace x @ m"
      by (auto simp add: dropWhile_append1)
    then show ?thesis by blast
  qed
  then obtain pre where pre: "lstrip (x @ m) = pre @ m"
    by (auto simp add: lstrip_def)
  have "rev (pre @ m) = rev m @ rev pre" by simp
  moreover have "dropWhile isspace (rev m @ rev pre) = rev m @ rev pre"
    using assms(1,3) by (cases "rev m") (auto simp add: last_rev [symmetric] hd_rev)
  ultimately have "rstrip (pre @ m) = pre @ m"
    by (simp add: rstrip_def)
  with pre show ?thesis by (auto simp add: strip_def)
qed

lemma subprocess_run_late:
  assumes "starts p" "run_time p = None \<or> (\<exists>d. run_time p = Some d \<and> 120 < d)"
  shows "subprocess_run p TIMEOUT = Inl (TimeoutExpired (partial_out p) (partial_err p))"
  using assms by (auto simp add: subprocess_run_def TIMEOUT_def)

lemma subprocess_run_on_time:
  assumes "starts p" "run_time p = Some d" "d \<le> 120"
  shows "subprocess_run p TIMEOUT =
           Inr \<lparr>returncode = status p, stdout = Some (out_bytes p), stderr = Some (err_bytes p)\<rparr>"
  using assms by (simp add: subprocess_run_def TIMEOUT_def)

lemma strip_timeout_marker:
  "\<exists>pre. strip (err @ [10, 84, 73, 77, 69, 79, 85, 84]) = pre @ [84, 73, 77, 69, 79, 85, 84]"
proof -
  have "\<exists>pre. strip ((err @ [10]) @ [84, 73, 77, 69, 79, 85, 84]) = pre @ [84, 73, 77, 69, 79, 85, 84]"
    by (rule strip_keeps_marker) (simp_all add: isspace_def)
  then show ?thesis by simp
qed

lemma capture_late:
  assumes "starts p" "run_time p = None \<or> (\<exists>d. run_time p = Some d \<and> 120 < d)"
  shows "\<exists>out err.
           decode (case partial_out p of None \<Rightarrow> [] | Some b \<Rightarrow> b) Replace = Inr out \<and>
           decode (case partial_err p of None \<Rightarrow> [] | Some b \<Rightarrow> b) Replace = Inr err \<and>
           capture p = Inr (out, err @ [10, 84, 73, 77, 69, 79, 85, 84], 124)"
  using capture_timeout [OF subprocess_run_late [OF assms]]
  by (simp add: or_empty_def NL_def str_def)

lemma capture_on_time:
  assumes "starts p" "run_time p = Some d" "d \<le> 120"
  shows "\<exists>out err.
           decode (out_bytes p) Replace = Inr out \<and> decode (err_bytes p) Replace = Inr err \<and>
           capture p = Inr (out, err, status p)"
  using capture_completed [OF subprocess_run_on_time [OF assms]]
  by (simp add: or_empty_def)

subsection \<open>The trace of a phase\<close>

lemma trace_emit: "trace (emit ev s) = trace s @ [ev]"
  by (simp add: emit_def)

lemma trace_fold_emit: "trace (fold (\<lambda>i. emit (f i)) xs s) = trace s @ map f xs"
  by (induction xs arbitrary: s) (simp_all add: trace_emit)

lemma collect_trace_eq: "trace (snd (collect name rs acc s)) = trace s @ collect_trace name rs"
  by (induction name rs acc s rule: collect.induct) (simp_all add: trace_emit)

lemma run_phase_trace:
  "trace (snd (run_phase e name prompts s)) = trace s @ phase_trace e name prompts"
proof (cases "prompts = []")
  case True
  then show ?thesis by (simp add: run_phase_def phase_trace_def Let_def trace_emit)
next
  case False
  let ?s1 = "emit (Printed (str ''Running phase: '' @ name @ str '' ('' @
                              str_int (int (length prompts)) @ str '' agents)'')) s"
  let ?s2 = "fold (\<lambda>i. emit (Submitted name (int i + 1))) [0..<length prompts] ?s1"
  obtain rs fs where rj: "run_jobs e name prompts (as_completed e name) (files ?s2) = (rs, fs)"
    by (cases "run_jobs e name prompts (as_completed e name) (files ?s2)")
  then have rs: "rs = phase_results e name prompts"
    using run_jobs_fst [of e name prompts "as_completed e name" "files ?s2"]
    by (simp add: phase_results_def)
  from False rj have "run_phase e name prompts s = collect name rs [] (?s2\<lparr>files := fs\<rparr>)"
    by (simp add: run_phase_def Let_def)
  then have "trace (snd (run_phase e name prompts s)) = trace ?s2 @ collect_trace name rs"
    by (simp add: collect_trace_eq)
  with False rs show ?thesis
    by (simp add: trace_fold_emit trace_emit phase_trace_def)
qed

lemma run_phase_fst_state: "fst (run_phase e name prompts s) = phase_value e name prompts"
proof (cases "prompts = []")
  case True
  then show ?thesis by (simp add: phase_value_def run_phase_empty)
next
  case False
  then show ?thesis
    using run_phase_fst [of prompts e name s] run_phase_fst [of prompts e name empty_state]
      collect_fst_state [of name "phase_results e name prompts" "[]" s empty_state]
    by (simp add: phase_value_def)
qed

lemma run_phase_eq:
  "run_phase e name prompts s = (phase_value e name prompts, snd (run_phase e name prompts s))"
  using run_phase_fst_state [of e name prompts s] by (metis prod.collapse)

lemma collect_trace_phase: "ev \<in> set (collect_trace name rs) \<Longrightarrow> phase_of ev = None \<or> phase_of ev = Some name"
  by (induction name rs rule: collect_trace.induct) (auto simp add: phase_of_def)

lemma phase_trace_phase:
  "ev \<in> set (phase_trace e name prompts) \<Longrightarrow> phase_of ev = None \<or> phase_of ev = Some name"
  by (auto simp add: phase_trace_def phase_of_def dest: collect_trace_phase split: if_splits)

lemma collect_Inr:
  "fst (collect name rs acc s) = Inr res \<Longrightarrow> map Inr res = map Inr acc @ map snd rs"
  by (induction name rs acc s rule: collect.induct) auto

lemma collect_trace_completed:
  "\<forall>r\<in>set rs. \<exists>v. snd r = Inr v \<Longrightarrow> (i, x) \<in> set rs \<Longrightarrow>
   Completed name (int i + 1) \<in> set (collect_trace name rs)"
  by (induction name rs rule: collect_trace.induct) auto

lemma phase_value_Inr:
  assumes "phase_value e name prompts = Inr res"
  shows "prompts \<noteq> [] \<and>
         map Inr res = map (\<lambda>i. job_result e name (int i + 1) (prompts ! i)) (as_completed e name)"
proof -
  have ne: "prompts \<noteq> []"
    using assms run_phase_empty [of e name empty_state] by (auto simp add: phase_value_def)
  then have "fst (collect name (phase_results e name prompts) [] empty_state) = Inr res"
    using assms run_phase_fst [of prompts e name empty_state] by (simp add: phase_value_def)
  from collect_Inr [OF this] ne show ?thesis
    by (simp add: phase_results_def comp_def)
qed

lemma phase_trace_completed:
  assumes "phase_value e name prompts = Inr res"
      and "completion_order (length prompts) (as_completed e name)"
      and "i \<in> {1..int (length prompts)}"
  shows "Completed name i \<in> set (phase_trace e name prompts)"
proof -
  from phase_value_Inr [OF assms(1)] have ne: "prompts \<noteq> []" and
    m: "map Inr res = map snd (phase_results e name prompts)"
    by (simp_all add: phase_results_def comp_def)
  have all: "\<forall>r\<in>set (phase_results e name prompts). \<exists>v. snd r = Inr v"
  proof
    fix r assume "r \<in> set (phase_results e name prompts)"
    then have "snd r \<in> set (map Inr res)" using m by simp
    then show "\<exists>v. snd r = Inr v" by auto
  qed
  from assms(3) have "nat (i - 1) < length prompts" "int (nat (i - 1)) + 1 = i" by auto
  with assms(2) have "nat (i - 1) \<in> set (as_completed e name)"
    by (simp add: completion_order_def)
  then have "(nat (i - 1), job_result e name (int (nat (i - 1)) + 1) (prompts ! nat (i - 1)))
               \<in> set (phase_results e name prompts)"
    by (auto simp add: phase_results_def)
  from collect_trace_completed [OF all this, of name] \<open>int (nat (i - 1)) + 1 = i\<close> ne
  show ?thesis by (simp add: phase_trace_def)
qed

subsection \<open>Phases that return and phases that raise\<close>

lemma phase_value_all_ok:
  assumes ne: "prompts \<noteq> []"
      and ord: "completion_order (length prompts) (as_completed e name)"
      and st: "\<forall>i<length prompts. starts (spawn e name (int i + 1) (agent_cmd (prompts ! i)))"
      and wr: "\<forall>i<length prompts. \<forall>data. writable e (str_path (out_file e name (int i + 1))) data"
  shows "phase_value e name prompts =
           Inr (map (\<lambda>i. (str_path (out_file e name (int i + 1)),
                          exit_code_of (spawn e name (int i + 1) (agent_cmd (prompts ! i)))))
                  (as_completed e name))"
proof -
  let ?f = "\<lambda>i. (str_path (out_file e name (int i + 1)),
                  exit_code_of (spawn e name (int i + 1) (agent_cmd (prompts ! i))))"
  have job: "job_result e name (int i + 1) (prompts ! i) = Inr (?f i)" if "i < length prompts" for i
    using that st wr run_agent_ok [of e name "int i + 1" "prompts ! i" Map.empty]
    by (simp add: job_result_def)
  have inr: "i \<in> set (as_completed e name) \<Longrightarrow> i < length prompts" for i
    using ord by (simp add: completion_order_def)
  have rs: "phase_results e name prompts = map (\<lambda>i. (i, Inr (?f i))) (as_completed e name)"
    unfolding phase_results_def using job inr by simp
  have "fst (collect name (phase_results e name prompts) [] empty_state) =
          Inr ([] @ map (\<lambda>r. projr (snd r)) (phase_results e name prompts))"
    by (rule collect_all_ok) (auto simp add: rs)
  then show ?thesis
    using run_phase_fst [OF ne, of e name empty_state] by (simp add: rs comp_def phase_value_def)
qed

lemma job_result_Inl:
  assumes "job_result e phase idx prompt = Inl exc"
  shows "exc = OSError \<and>
         (\<not> starts (spawn e phase idx (agent_cmd prompt)) \<or>
          (\<exists>data. \<not> writable e (str_path (out_file e phase idx)) data))"
proof -
  have "exc = OSError"
    using assms run_agent_exn [of e phase idx prompt Map.empty exc] by (simp add: job_result_def)
  moreover have "\<not> starts (spawn e phase idx (agent_cmd prompt)) \<or>
          (\<exists>data. \<not> writable e (str_path (out_file e phase idx)) data)"
  proof (rule ccontr)
    assume "\<not> ?thesis"
    then have "fst (run_agent e phase idx prompt Map.empty) =
           Inr (str_path (out_file e phase idx), exit_code_of (spawn e phase idx (agent_cmd prompt)))"
      using run_agent_ok [of e phase idx prompt Map.empty] by blast
    with assms show False by (simp add: job_result_def)
  qed
  ultimately show ?thesis by simp
qed

lemma job_result_not_starts:
  "\<not> starts (spawn e phase idx (agent_cmd prompt)) \<Longrightarrow> job_result e phase idx prompt = Inl OSError"
  by (simp add: job_result_def run_agent_not_starts)

lemma job_result_Inr_iff:
  "(\<exists>r. job_result e phase idx prompt = Inr r) \<longleftrightarrow>
     starts (spawn e phase idx (agent_cmd prompt)) \<and>
     writable e (str_path (out_file e phase idx)) (job_report e phase idx prompt)"
proof (cases "starts (spawn e phase idx (agent_cmd prompt))")
  case False
  then show ?thesis by (simp add: job_result_not_starts)
next
  case True
  from capture_starts [OF True] obtain out err where
    "capture (spawn e phase idx (agent_cmd prompt)) =
       Inr (out, err, exit_code_of (spawn e phase idx (agent_cmd prompt)))" by blast
  with True show ?thesis
    by (simp add: job_result_def run_agent_def write_text_def job_report_def)
qed

lemma phase_value_Inl:
  assumes "phase_value e name prompts = Inl exc" "prompts \<noteq> []"
  shows "\<exists>i\<in>set (as_completed e name). job_result e name (int i + 1) (prompts ! i) = Inl exc"
proof -
  from assms have "fst (collect name (phase_results e name prompts) [] empty_state) = Inl exc"
    using run_phase_fst [of prompts e name empty_state] by (simp add: phase_value_def)
  from collect_exn [OF this] show ?thesis
    by (auto simp add: phase_results_def)
qed

lemma phase_value_fails:
  assumes ord: "completion_order (length prompts) (as_completed e name)"
      and i: "i < length prompts"
      and f: "job_result e name (int i + 1) (prompts ! i) = Inl exc"
  shows "phase_value e name prompts = Inl OSError"
proof -
  from i have ne: "prompts \<noteq> []" by auto
  from ord i have "i \<in> set (as_completed e name)" by (simp add: completion_order_def)
  with f have "(i, Inl exc) \<in> set (phase_results e name prompts)"
    by (force simp add: phase_results_def)
  from collect_some_exn [OF this, of name "[]" empty_state] obtain exc' where
    "fst (collect name (phase_results e name prompts) [] empty_state) = Inl exc'" by blast
  then have pv: "phase_value e name prompts = Inl exc'"
    using run_phase_fst [OF ne, of e name empty_state] by (simp add: phase_value_def)
  from phase_value_Inl [OF pv ne] obtain j where
    "job_result e name (int j + 1) (prompts ! j) = Inl exc'" by blast
  then have "exc' = OSError" using job_result_Inl by blast
  with pv show ?thesis by simp
qed

lemma phase_value_Inl_job:
  assumes "phase_value e name prompts = Inl exc" "prompts \<noteq> []"
      and "completion_order (length prompts) (as_completed e name)"
  shows "\<exists>i<length prompts. job_result e name (int i + 1) (prompts ! i) = Inl exc"
  using phase_value_Inl [OF assms(1,2)] assms(3) by (auto simp add: completion_order_def)

subsection \<open>The three phases of \<^verbatim>\<open>main\<close>\<close>

lemma phase_jobs_set:
  "set (phase_jobs name prompts) = {(name, int i + 1, prompts ! i) | i. i < length prompts}"
  by (auto simp add: phase_jobs_def)

lemma JOBS_cases:
  assumes "(name, idx, prompt) \<in> set JOBS"
  obtains i where "name = str ''implementation''" "i < length IMPLEMENTATION_PROMPTS"
      "idx = int i + 1" "prompt = IMPLEMENTATION_PROMPTS ! i"
  | i where "name = str ''bugfix''" "i < length BUGFIX_PROMPTS"
      "idx = int i + 1" "prompt = BUGFIX_PROMPTS ! i"
  | i where "name = str ''docs''" "i < length DOC_PROMPTS"
      "idx = int i + 1" "prompt = DOC_PROMPTS ! i"
  using assms by (auto simp add: JOBS_def phase_jobs_set)

lemma phase_name_chars:
  assumes "(phase, idx, prompt) \<in> set JOBS"
  shows "\<forall>c\<in>set phase. 97 \<le> c \<and> c \<le> 122"
  using assms by (rule JOBS_cases) (simp_all add: str_def)

lemma job_out_name:
  assumes "(phase, idx, prompt) \<in> set JOBS"
  shows "47 \<notin> set (out_name phase idx (strftime d))"
    and "92 \<notin> set (out_name phase idx (strftime d))"
    and "58 \<notin> set (out_name phase idx (strftime d))"
    and "ascii_lower (out_name phase idx (strftime d)) = out_name phase idx (strftime d)"
    and "SEP \<notin> set phase"
proof -
  note ch = out_name_chars [OF phase_name_chars [OF assms], of _ idx d]
  show "47 \<notin> set (out_name phase idx (strftime d))" using ch [of 47] by auto
  show "92 \<notin> set (out_name phase idx (strftime d))" using ch [of 92] by auto
  show "58 \<notin> set (out_name phase idx (strftime d))" using ch [of 58] by auto
  show "ascii_lower (out_name phase idx (strftime d)) = out_name phase idx (strftime d)"
  proof (rule ascii_lower_plain, rule ballI)
    fix c assume "c \<in> set (out_name phase idx (strftime d))"
    from ch [OF this] show "\<not> (65 \<le> c \<and> c \<le> 90)" by auto
  qed
  show "SEP \<notin> set phase"
    using phase_name_chars [OF assms] by (auto simp add: SEP_def)
qed

lemma JOBS_impl: "i < length IMPLEMENTATION_PROMPTS \<Longrightarrow>
    (str ''implementation'', int i + 1, IMPLEMENTATION_PROMPTS ! i) \<in> set JOBS"
  by (auto simp add: JOBS_def phase_jobs_set)

lemma JOBS_bugfix: "i < length BUGFIX_PROMPTS \<Longrightarrow>
    (str ''bugfix'', int i + 1, BUGFIX_PROMPTS ! i) \<in> set JOBS"
  by (auto simp add: JOBS_def phase_jobs_set)

lemma JOBS_docs: "i < length DOC_PROMPTS \<Longrightarrow>
    (str ''docs'', int i + 1, DOC_PROMPTS ! i) \<in> set JOBS"
  by (auto simp add: JOBS_def phase_jobs_set)

lemma prompts_nonempty:
  "IMPLEMENTATION_PROMPTS \<noteq> []" "BUGFIX_PROMPTS \<noteq> []" "DOC_PROMPTS \<noteq> []"
  by (simp_all add: IMPLEMENTATION_PROMPTS_def BUGFIX_PROMPTS_def DOC_PROMPTS_def)

lemma prompt_count:
  "length IMPLEMENTATION_PROMPTS = 8" "length BUGFIX_PROMPTS = 6" "length DOC_PROMPTS = 4"
  by (simp_all add: IMPLEMENTATION_PROMPTS_def BUGFIX_PROMPTS_def DOC_PROMPTS_def)

lemma jobs_sound_phase:
  assumes "jobs_sound e"
      and "\<And>i. i < length prompts \<Longrightarrow> (name, int i + 1, prompts ! i) \<in> set JOBS"
  shows "\<forall>i<length prompts. starts (spawn e name (int i + 1) (agent_cmd (prompts ! i)))"
    and "\<forall>i<length prompts. \<forall>data. writable e (str_path (out_file e name (int i + 1))) data"
  using assms by (fastforce simp add: jobs_sound_def)+

lemma main_cases:
  assumes "s1 = snd (run_phase e (str ''implementation'') IMPLEMENTATION_PROMPTS s)"
      and "s2 = snd (run_phase e (str ''bugfix'') BUGFIX_PROMPTS s1)"
      and "s3 = snd (run_phase e (str ''docs'') DOC_PROMPTS s2)"
  shows "main e s =
     (case phase_value e (str ''implementation'') IMPLEMENTATION_PROMPTS of
        Inl exc \<Rightarrow> (Inl exc, s1)
      | Inr r1 \<Rightarrow>
          (case phase_value e (str ''bugfix'') BUGFIX_PROMPTS of
             Inl exc \<Rightarrow> (Inl exc, s2)
           | Inr r2 \<Rightarrow>
               (case phase_value e (str ''docs'') DOC_PROMPTS of
                  Inl exc \<Rightarrow> (Inl exc, s3)
                | Inr r3 \<Rightarrow> (Inr (), emit (summary_line (r1 @ r2 @ r3)) s3))))"
proof -
  have 1: "run_phase e (str ''implementation'') IMPLEMENTATION_PROMPTS s =
             (phase_value e (str ''implementation'') IMPLEMENTATION_PROMPTS, s1)"
    unfolding assms(1) by (rule run_phase_eq)
  have 2: "run_phase e (str ''bugfix'') BUGFIX_PROMPTS s1 =
             (phase_value e (str ''bugfix'') BUGFIX_PROMPTS, s2)"
    unfolding assms(2) by (rule run_phase_eq)
  have 3: "run_phase e (str ''docs'') DOC_PROMPTS s2 =
             (phase_value e (str ''docs'') DOC_PROMPTS, s3)"
    unfolding assms(3) by (rule run_phase_eq)
  show ?thesis
    by (simp add: main_def 1 2 3 summary_line_def Let_def split: sum.splits)
qed

lemma main_fst:
  "fst (main e s) =
     (case phase_value e (str ''implementation'') IMPLEMENTATION_PROMPTS of
        Inl exc \<Rightarrow> Inl exc
      | Inr r1 \<Rightarrow>
          (case phase_value e (str ''bugfix'') BUGFIX_PROMPTS of
             Inl exc \<Rightarrow> Inl exc
           | Inr r2 \<Rightarrow>
               (case phase_value e (str ''docs'') DOC_PROMPTS of
                  Inl exc \<Rightarrow> Inl exc
                | Inr r3 \<Rightarrow> Inr ())))"
  using main_cases [OF refl refl refl, of e s] by (simp split: sum.splits)

lemma main_trace:
  "trace (snd (main e s)) =
     trace s @ phase_trace e (str ''implementation'') IMPLEMENTATION_PROMPTS @
     (case phase_value e (str ''implementation'') IMPLEMENTATION_PROMPTS of
        Inl exc \<Rightarrow> []
      | Inr r1 \<Rightarrow>
          phase_trace e (str ''bugfix'') BUGFIX_PROMPTS @
          (case phase_value e (str ''bugfix'') BUGFIX_PROMPTS of
             Inl exc \<Rightarrow> []
           | Inr r2 \<Rightarrow>
               phase_trace e (str ''docs'') DOC_PROMPTS @
               (case phase_value e (str ''docs'') DOC_PROMPTS of
                  Inl exc \<Rightarrow> []
                | Inr r3 \<Rightarrow> [summary_line (r1 @ r2 @ r3)])))"
  using main_cases [OF refl refl refl, of e s]
  by (simp add: run_phase_trace trace_emit split: sum.splits)

lemma phase_values_all_ok:
  assumes "orders_valid e" "jobs_sound e"
  shows "\<exists>r. phase_value e (str ''implementation'') IMPLEMENTATION_PROMPTS = Inr r"
    and "\<exists>r. phase_value e (str ''bugfix'') BUGFIX_PROMPTS = Inr r"
    and "\<exists>r. phase_value e (str ''docs'') DOC_PROMPTS = Inr r"
proof -
  show "\<exists>r. phase_value e (str ''implementation'') IMPLEMENTATION_PROMPTS = Inr r"
    using phase_value_all_ok [OF prompts_nonempty(1) _ jobs_sound_phase [OF assms(2) JOBS_impl]]
      assms(1) by (simp add: orders_valid_def)
  show "\<exists>r. phase_value e (str ''bugfix'') BUGFIX_PROMPTS = Inr r"
    using phase_value_all_ok [OF prompts_nonempty(2) _ jobs_sound_phase [OF assms(2) JOBS_bugfix]]
      assms(1) by (simp add: orders_valid_def)
  show "\<exists>r. phase_value e (str ''docs'') DOC_PROMPTS = Inr r"
    using phase_value_all_ok [OF prompts_nonempty(3) _ jobs_sound_phase [OF assms(2) JOBS_docs]]
      assms(1) by (simp add: orders_valid_def)
qed

lemma main_all_ok:
  assumes "orders_valid e" "jobs_sound e"
  shows "fst (main e s) = Inr ()"
  using phase_values_all_ok [OF assms] by (auto simp add: main_fst)

lemma main_Inl:
  assumes "fst (main e s) = Inl exc" "orders_valid e"
  shows "\<exists>(name, idx, prompt)\<in>set JOBS. job_result e name idx prompt = Inl exc"
proof -
  from assms(1) consider
      "phase_value e (str ''implementation'') IMPLEMENTATION_PROMPTS = Inl exc"
    | "phase_value e (str ''bugfix'') BUGFIX_PROMPTS = Inl exc"
    | "phase_value e (str ''docs'') DOC_PROMPTS = Inl exc"
    by (auto simp add: main_fst split: sum.splits)
  then show ?thesis
  proof cases
    case 1
    from phase_value_Inl_job [OF 1 prompts_nonempty(1)] assms(2) obtain i where
      "i < length IMPLEMENTATION_PROMPTS"
      "job_result e (str ''implementation'') (int i + 1) (IMPLEMENTATION_PROMPTS ! i) = Inl exc"
      by (auto simp add: orders_valid_def)
    with JOBS_impl show ?thesis by fastforce
  next
    case 2
    from phase_value_Inl_job [OF 2 prompts_nonempty(2)] assms(2) obtain i where
      "i < length BUGFIX_PROMPTS"
      "job_result e (str ''bugfix'') (int i + 1) (BUGFIX_PROMPTS ! i) = Inl exc"
      by (auto simp add: orders_valid_def)
    with JOBS_bugfix show ?thesis by fastforce
  next
    case 3
    from phase_value_Inl_job [OF 3 prompts_nonempty(3)] assms(2) obtain i where
      "i < length DOC_PROMPTS"
      "job_result e (str ''docs'') (int i + 1) (DOC_PROMPTS ! i) = Inl exc"
      by (auto simp add: orders_valid_def)
    with JOBS_docs show ?thesis by fastforce
  qed
qed

lemma main_fails:
  assumes "orders_valid e" "(name, idx, prompt) \<in> set JOBS" "job_result e name idx prompt = Inl exc"
  shows "fst (main e s) = Inl OSError"
  using assms(2)
proof (cases rule: JOBS_cases)
  case (1 i)
  with assms have "phase_value e (str ''implementation'') IMPLEMENTATION_PROMPTS = Inl OSError"
    by (intro phase_value_fails [of _ _ _ i exc]) (simp_all add: orders_valid_def)
  then show ?thesis by (simp add: main_fst)
next
  case (2 i)
  with assms have "phase_value e (str ''bugfix'') BUGFIX_PROMPTS = Inl OSError"
    by (intro phase_value_fails [of _ _ _ i exc]) (simp_all add: orders_valid_def)
  moreover have "phase_value e (str ''implementation'') IMPLEMENTATION_PROMPTS = Inl exc' \<Longrightarrow>
      exc' = OSError" for exc'
    using phase_value_Inl [OF _ prompts_nonempty(1)] job_result_Inl by blast
  ultimately show ?thesis by (auto simp add: main_fst split: sum.splits)
next
  case (3 i)
  with assms have "phase_value e (str ''docs'') DOC_PROMPTS = Inl OSError"
    by (intro phase_value_fails [of _ _ _ i exc]) (simp_all add: orders_valid_def)
  moreover have "phase_value e (str ''implementation'') IMPLEMENTATION_PROMPTS = Inl exc' \<Longrightarrow>
      exc' = OSError" for exc'
    using phase_value_Inl [OF _ prompts_nonempty(1)] job_result_Inl by blast
  moreover have "phase_value e (str ''bugfix'') BUGFIX_PROMPTS = Inl exc' \<Longrightarrow>
      exc' = OSError" for exc'
    using phase_value_Inl [OF _ prompts_nonempty(2)] job_result_Inl by blast
  ultimately show ?thesis by (auto simp add: main_fst split: sum.splits)
qed

lemma exit_status_cases: "exit_status r = 0 \<longleftrightarrow> (\<exists>u. r = Inr u)"
  by (cases r) (simp_all add: exit_status_def)

lemma main_returns_iff:
  assumes ord: "orders_valid e"
  shows "fst (main e s) = Inr () \<longleftrightarrow>
         (\<forall>(name, idx, prompt)\<in>set JOBS. \<exists>r. job_result e name idx prompt = Inr r)"
proof
  assume ret: "fst (main e s) = Inr ()"
  show "\<forall>(name, idx, prompt)\<in>set JOBS. \<exists>r. job_result e name idx prompt = Inr r"
  proof (rule ccontr)
    assume "\<not> ?thesis"
    then obtain name idx prompt where j: "(name, idx, prompt) \<in> set JOBS"
      and "\<not> (\<exists>r. job_result e name idx prompt = Inr r)" by auto
    then obtain exc where "job_result e name idx prompt = Inl exc"
      by (cases "job_result e name idx prompt") auto
    from main_fails [OF ord j this, of s] ret show False by simp
  qed
next
  assume all: "\<forall>(name, idx, prompt)\<in>set JOBS. \<exists>r. job_result e name idx prompt = Inr r"
  show "fst (main e s) = Inr ()"
  proof (cases "fst (main e s)")
    case (Inr u)
    then show ?thesis by simp
  next
    case (Inl exc)
    from main_Inl [OF Inl ord] all show ?thesis by fastforce
  qed
qed

subsection \<open>The order of events\<close>

lemma resolved_before_split:
  assumes a: "\<forall>ev\<in>set A. phase_of ev \<noteq> Some q"
      and b: "\<forall>ev\<in>set B. phase_of ev \<noteq> Some p"
      and c: "B \<noteq> [] \<Longrightarrow> \<forall>i\<in>{1..int k}. Completed p i \<in> set A"
  shows "resolved_before (A @ B) p k q"
proof -
  from a have bf: "before_first q (A @ B) = A @ before_first q B"
    by (simp add: before_first_def takeWhile_append2)
  from a have ff: "from_first q (A @ B) = from_first q B"
    by (simp add: from_first_def dropWhile_append2)
  have sub: "set (from_first q B) \<subseteq> set B"
    by (auto simp add: from_first_def dest: set_dropWhileD)
  have "from_first q B \<noteq> [] \<Longrightarrow> B \<noteq> []"
    by (auto simp add: from_first_def)
  with c have "from_first q B \<noteq> [] \<longrightarrow> (\<forall>i\<in>{1..int k}. Completed p i \<in> set (A @ before_first q B))"
    by auto
  moreover from b sub have "\<forall>ev\<in>set (from_first q B). phase_of ev \<noteq> Some p"
    by blast
  ultimately show ?thesis
    by (simp add: resolved_before_def bf ff)
qed

lemma phase_names_distinct:
  "str ''implementation'' \<noteq> str ''bugfix''" "str ''bugfix'' \<noteq> str ''docs''"
  "str ''implementation'' \<noteq> str ''docs''"
  by (simp_all add: str_def)

lemma summary_line_phase: "phase_of (summary_line rs) = None"
  by (simp add: summary_line_def phase_of_def)

lemma phase_trace_other:
  "name \<noteq> q \<Longrightarrow> \<forall>ev\<in>set (phase_trace e name prompts). phase_of ev \<noteq> Some q"
  using phase_trace_phase by fastforce

lemma main_trace_shape:
  assumes "trace s = []"
  obtains
    (stop1) "trace (snd (main e s)) = phase_trace e (str ''implementation'') IMPLEMENTATION_PROMPTS"
  | (go) r1 R where
      "phase_value e (str ''implementation'') IMPLEMENTATION_PROMPTS = Inr r1"
      "trace (snd (main e s)) =
         phase_trace e (str ''implementation'') IMPLEMENTATION_PROMPTS @
         phase_trace e (str ''bugfix'') BUGFIX_PROMPTS @ R"
      "\<forall>ev\<in>set R. phase_of ev = None \<or> phase_of ev = Some (str ''docs'')"
      "R \<noteq> [] \<Longrightarrow> \<exists>r2. phase_value e (str ''bugfix'') BUGFIX_PROMPTS = Inr r2"
proof (cases "phase_value e (str ''implementation'') IMPLEMENTATION_PROMPTS")
  case (Inl exc)
  with assms have "trace (snd (main e s)) = phase_trace e (str ''implementation'') IMPLEMENTATION_PROMPTS"
    by (simp add: main_trace)
  then show ?thesis by (rule stop1)
next
  case r1: (Inr r1)
  show ?thesis
  proof (cases "phase_value e (str ''bugfix'') BUGFIX_PROMPTS")
    case (Inl exc)
    with r1 assms have "trace (snd (main e s)) =
         phase_trace e (str ''implementation'') IMPLEMENTATION_PROMPTS @
         phase_trace e (str ''bugfix'') BUGFIX_PROMPTS @ []"
      by (simp add: main_trace)
    with r1 show ?thesis by (rule go) simp_all
  next
    case r2: (Inr r2)
    show ?thesis
    proof (cases "phase_value e (str ''docs'') DOC_PROMPTS")
      case (Inl exc)
      with r1 r2 assms have "trace (snd (main e s)) =
         phase_trace e (str ''implementation'') IMPLEMENTATION_PROMPTS @
         phase_trace e (str ''bugfix'') BUGFIX_PROMPTS @ phase_trace e (str ''docs'') DOC_PROMPTS"
        by (simp add: main_trace)
      with r1 show ?thesis
      proof (rule go)
        show "\<forall>ev\<in>set (phase_trace e (str ''docs'') DOC_PROMPTS).
                phase_of ev = None \<or> phase_of ev = Some (str ''docs'')"
          using phase_trace_phase by blast
        show "\<exists>r2. phase_value e (str ''bugfix'') BUGFIX_PROMPTS = Inr r2"
          using r2 by blast
      qed
    next
      case (Inr r3)
      with r1 r2 assms have "trace (snd (main e s)) =
         phase_trace e (str ''implementation'') IMPLEMENTATION_PROMPTS @
         phase_trace e (str ''bugfix'') BUGFIX_PROMPTS @
         (phase_trace e (str ''docs'') DOC_PROMPTS @ [summary_line (r1 @ r2 @ r3)])"
        by (simp add: main_trace)
      with r1 show ?thesis
      proof (rule go)
        show "\<forall>ev\<in>set (phase_trace e (str ''docs'') DOC_PROMPTS @ [summary_line (r1 @ r2 @ r3)]).
                phase_of ev = None \<or> phase_of ev = Some (str ''docs'')"
          using phase_trace_phase summary_line_phase by auto
        show "\<exists>r2. phase_value e (str ''bugfix'') BUGFIX_PROMPTS = Inr r2"
          using r2 by blast
      qed
    qed
  qed
qed

subsection \<open>Counting successes\<close>

lemma count_ok_append: "count_ok (a @ b) = count_ok a + count_ok b"
  by (simp add: count_ok_def)

lemma count_ok_filter: "count_ok rs = int (length (filter is_success (map Inr rs)))"
  by (induction rs) (auto simp add: count_ok_def is_success_def)

lemma length_filter_perm:
  "mset xs = mset ys \<Longrightarrow> length (filter P (map f xs)) = length (filter P (map f ys))"
proof -
  assume "mset xs = mset ys"
  then have "mset (filter P (map f xs)) = mset (filter P (map f ys))"
    by (metis mset_filter mset_map)
  then show ?thesis by (rule mset_eq_length)
qed

lemma phase_count:
  assumes pv: "phase_value e name prompts = Inr res"
      and ord: "completion_order (length prompts) (as_completed e name)"
  shows "count_ok res = int (successes e (phase_jobs name prompts))"
    and "length res = length prompts"
proof -
  let ?jr = "\<lambda>i. job_result e name (int i + 1) (prompts ! i)"
  from phase_value_Inr [OF pv] have m: "map Inr res = map ?jr (as_completed e name)" by simp
  have "length (filter is_success (map ?jr (as_completed e name))) =
        length (filter is_success (map ?jr [0..<length prompts]))"
    using completion_order_mset [OF ord] by (rule length_filter_perm)
  also have "\<dots> = successes e (phase_jobs name prompts)"
    by (simp add: successes_def phase_jobs_def filter_map comp_def)
  finally show "count_ok res = int (successes e (phase_jobs name prompts))"
    by (simp add: count_ok_filter m)
  from m have "length (map Inr res :: (exn + pystr \<times> int) list) = length (map ?jr (as_completed e name))"
    by simp
  then show "length res = length prompts"
    using completion_order_length [OF ord] by simp
qed

lemma successes_append: "successes e (a @ b) = successes e a + successes e b"
  by (simp add: successes_def)

subsection \<open>The example worlds\<close>

lemma calm_orders_valid: "orders_valid calm_env"
  by (auto simp add: orders_valid_def completion_order_def calm_env_def str_def
      IMPLEMENTATION_PROMPTS_def BUGFIX_PROMPTS_def DOC_PROMPTS_def)

lemma calm_jobs_sound: "jobs_sound calm_env"
  by (simp add: jobs_sound_def calm_env_def quick_process_def split_beta)

lemma calm_successes: "successes calm_env JOBS = 18"
proof -
  have "job_result calm_env name idx prompt =
      Inr (str_path (out_file calm_env name idx), 0)" for name idx prompt
    using run_agent_ok [of calm_env name idx prompt Map.empty]
    by (simp add: job_result_def calm_env_def quick_process_def exit_code_of_def TIMEOUT_def)
  then have "successes calm_env JOBS = length JOBS"
    by (simp add: successes_def is_success_def split_beta)
  then show ?thesis
    by (simp add: JOBS_def phase_jobs_def IMPLEMENTATION_PROMPTS_def BUGFIX_PROMPTS_def
        DOC_PROMPTS_def)
qed

lemma slow_orders_valid: "orders_valid slow_env"
  using calm_orders_valid by (simp add: orders_valid_def slow_env_def)

lemma broken_orders_valid: "orders_valid broken_env"
  using calm_orders_valid by (simp add: orders_valid_def broken_env_def)

lemma broken_phase_fails:
  "phase_value broken_env (str ''implementation'') IMPLEMENTATION_PROMPTS = Inl OSError"
proof -
  have ns: "\<not> starts (spawn broken_env (str ''implementation'') 3
                        (agent_cmd (IMPLEMENTATION_PROMPTS ! 2)))"
    by (simp add: broken_env_def dead_process_def)
  show ?thesis
    using phase_value_fails [OF _ _ job_result_not_starts,
        of IMPLEMENTATION_PROMPTS broken_env "str ''implementation''" 2]
      ns broken_orders_valid by (simp add: orders_valid_def prompt_count)
qed

lemma broken_main_fails: "fst (main broken_env s) = Inl OSError"
proof -
  have ns: "\<not> starts (spawn broken_env (str ''implementation'') 3
                        (agent_cmd (IMPLEMENTATION_PROMPTS ! 2)))"
    by (simp add: broken_env_def dead_process_def)
  have j: "(str ''implementation'', 3, IMPLEMENTATION_PROMPTS ! 2) \<in> set JOBS"
    using JOBS_impl [of 2] by (simp add: prompt_count)
  show ?thesis
    using main_fails [OF broken_orders_valid j job_result_not_starts [OF ns]] .
qed

lemma phase_trace_submitted:
  "i < length prompts \<Longrightarrow> Submitted name (int i + 1) \<in> set (phase_trace e name prompts)"
  by (auto simp add: phase_trace_def)

lemma from_first_nonempty: "ev \<in> set tr \<Longrightarrow> phase_of ev = Some q \<Longrightarrow> from_first q tr \<noteq> []"
  by (auto simp add: from_first_def)

lemma calm_later_phases_start:
  "from_first (str ''bugfix'') (trace (snd (main calm_env empty_state))) \<noteq> []"
  "from_first (str ''docs'') (trace (snd (main calm_env empty_state))) \<noteq> []"
proof -
  from phase_values_all_ok [OF calm_orders_valid calm_jobs_sound] obtain r1 r2 r3 where
    "phase_value calm_env (str ''implementation'') IMPLEMENTATION_PROMPTS = Inr r1"
    "phase_value calm_env (str ''bugfix'') BUGFIX_PROMPTS = Inr r2"
    "phase_value calm_env (str ''docs'') DOC_PROMPTS = Inr r3" by blast
  then have tr: "trace (snd (main calm_env empty_state)) =
      phase_trace calm_env (str ''implementation'') IMPLEMENTATION_PROMPTS @
      phase_trace calm_env (str ''bugfix'') BUGFIX_PROMPTS @
      phase_trace calm_env (str ''docs'') DOC_PROMPTS @ [summary_line (r1 @ r2 @ r3)]"
    by (simp add: main_trace empty_state_def)
  have "Submitted (str ''bugfix'') (int 0 + 1) \<in> set (trace (snd (main calm_env empty_state)))"
    using phase_trace_submitted [of 0 BUGFIX_PROMPTS "str ''bugfix''" calm_env]
    by (simp add: tr prompt_count)
  then show "from_first (str ''bugfix'') (trace (snd (main calm_env empty_state))) \<noteq> []"
    by (rule from_first_nonempty) (simp add: phase_of_def)
  have "Submitted (str ''docs'') (int 0 + 1) \<in> set (trace (snd (main calm_env empty_state)))"
    using phase_trace_submitted [of 0 DOC_PROMPTS "str ''docs''" calm_env]
    by (simp add: tr prompt_count)
  then show "from_first (str ''docs'') (trace (snd (main calm_env empty_state))) \<noteq> []"
    by (rule from_first_nonempty) (simp add: phase_of_def)
qed

subsection \<open>The files a phase writes\<close>

lemma run_agent_eq:
  "run_agent e phase idx prompt fs =
     (job_result e phase idx prompt,
      case job_result e phase idx prompt of
        Inl _ \<Rightarrow> fs
      | Inr _ \<Rightarrow> fs(str_path (out_file e phase idx) \<mapsto> job_report e phase idx prompt))"
  by (simp add: run_agent_def job_result_def job_report_def write_text_def
      split: sum.splits prod.splits)

lemma files_emit: "files (emit ev s) = files s"
  by (simp add: emit_def)

lemma files_fold_emit: "files (fold (\<lambda>i. emit (f i)) xs s) = files s"
  by (induction xs arbitrary: s) (simp_all add: files_emit)

lemma files_collect: "files (snd (collect name rs acc s)) = files s"
  by (induction name rs acc s rule: collect.induct) (simp_all add: files_emit)

lemma run_phase_files:
  assumes "prompts \<noteq> []"
  shows "files (snd (run_phase e name prompts s)) =
           snd (run_jobs e name prompts (as_completed e name) (files s))"
proof -
  let ?s1 = "emit (Printed (str ''Running phase: '' @ name @ str '' ('' @
                              str_int (int (length prompts)) @ str '' agents)'')) s"
  let ?s2 = "fold (\<lambda>i. emit (Submitted name (int i + 1))) [0..<length prompts] ?s1"
  have f: "files ?s2 = files s"
    by (simp add: files_fold_emit files_emit)
  obtain rs fs where rj: "run_jobs e name prompts (as_completed e name) (files ?s2) = (rs, fs)"
    by (cases "run_jobs e name prompts (as_completed e name) (files ?s2)")
  with assms have "run_phase e name prompts s = collect name rs [] (?s2\<lparr>files := fs\<rparr>)"
    by (simp add: run_phase_def Let_def)
  then have "files (snd (run_phase e name prompts s)) = fs"
    by (simp add: files_collect)
  with rj f show ?thesis by simp
qed

lemma run_jobs_untouched:
  "\<forall>i\<in>set order. q \<noteq> str_path (out_file e name (int i + 1)) \<Longrightarrow>
   snd (run_jobs e name prompts order fs) q = fs q"
proof (induction order arbitrary: fs)
  case Nil
  show ?case by simp
next
  case (Cons j order)
  then show ?case
    by (simp add: run_agent_eq split_beta split: sum.splits)
qed

lemma run_jobs_written:
  assumes "distinct order"
      and "inj_on (\<lambda>i. str_path (out_file e name (int i + 1))) (set order)"
      and "i \<in> set order"
      and "job_result e name (int i + 1) (prompts ! i) = Inr r"
  shows "snd (run_jobs e name prompts order fs) (str_path (out_file e name (int i + 1))) =
           Some (job_report e name (int i + 1) (prompts ! i))"
  using assms(1,2,3)
proof (induction order arbitrary: fs)
  case Nil
  then show ?case by simp
next
  case (Cons j order)
  let ?p = "\<lambda>i. str_path (out_file e name (int i + 1))"
  show ?case
  proof (cases "j = i")
    case True
    have "\<forall>k\<in>set order. ?p i \<noteq> ?p k"
      using Cons.prems True by (auto simp add: inj_on_def)
    then have "snd (run_jobs e name prompts order fs') (?p i) = fs' (?p i)" for fs'
      by (rule run_jobs_untouched)
    with True assms(4) show ?thesis
      by (simp add: run_agent_eq split_beta)
  next
    case False
    with Cons.prems have "distinct order" "inj_on ?p (set order)" "i \<in> set order"
      by (auto simp add: inj_on_def)
    from Cons.IH [OF this] show ?thesis
      by (simp add: run_agent_eq split_beta)
  qed
qed

lemma phase_paths_inj:
  assumes "SEP \<notin> set name"
  shows "inj_on (\<lambda>i. str_path (out_file e name (int i + 1))) A"
proof (rule inj_onI)
  fix i j :: nat
  assume eq: "str_path (out_file e name (int i + 1)) = str_path (out_file e name (int j + 1))"
  show "i = j"
  proof (rule ccontr)
    assume "i \<noteq> j"
    then have "(name, int i + 1) \<noteq> (name, int j + 1)" by simp
    from artifact_paths_distinct [OF assms assms this] eq show False
      by (simp add: out_file_def)
  qed
qed

lemma run_phase_writes_report:
  assumes "completion_order (length prompts) (as_completed e name)"
      and "SEP \<notin> set name"
      and "i < length prompts"
      and "starts (spawn e name (int i + 1) (agent_cmd (prompts ! i)))"
      and "writable e (str_path (out_file e name (int i + 1)))
             (job_report e name (int i + 1) (prompts ! i))"
  shows "files (snd (run_phase e name prompts s)) (str_path (out_file e name (int i + 1))) =
           Some (job_report e name (int i + 1) (prompts ! i))"
proof -
  from assms(3) have ne: "prompts \<noteq> []" by auto
  from assms(4,5) obtain r where r: "job_result e name (int i + 1) (prompts ! i) = Inr r"
    using job_result_Inr_iff [of e name "int i + 1" "prompts ! i"] by blast
  from assms(1,3) have "distinct (as_completed e name)" "i \<in> set (as_completed e name)"
    by (simp_all add: completion_order_def)
  from run_jobs_written [OF this(1) phase_paths_inj [OF assms(2)] this(2) r]
  show ?thesis
    by (simp add: run_phase_files [OF ne])
qed

subsection \<open>After a job that raises\<close>

lemma main_trace_after_failure:
  assumes ord: "orders_valid e" and j: "(name, idx, prompt) \<in> set JOBS"
      and f: "job_result e name idx prompt = Inl exc" and fresh: "trace s = []"
  shows "\<forall>ev\<in>set (trace (snd (main e s))). \<forall>q. phase_of ev = Some q \<longrightarrow>
           phase_rank q \<le> phase_rank name"
proof -
  let ?I = "str ''implementation''" and ?B = "str ''bugfix''"
  have T1: "\<forall>ev\<in>set (phase_trace e ?I IMPLEMENTATION_PROMPTS). \<forall>q. phase_of ev = Some q \<longrightarrow> q = ?I"
    using phase_trace_phase [of _ e ?I IMPLEMENTATION_PROMPTS] by fastforce
  have T2: "\<forall>ev\<in>set (phase_trace e ?B BUGFIX_PROMPTS). \<forall>q. phase_of ev = Some q \<longrightarrow> q = ?B"
    using phase_trace_phase [of _ e ?B BUGFIX_PROMPTS] by fastforce
  from j show ?thesis
  proof (cases rule: JOBS_cases)
    case (1 i)
    with ord f have "phase_value e ?I IMPLEMENTATION_PROMPTS = Inl OSError"
      by (intro phase_value_fails [of _ _ _ i exc]) (simp_all add: orders_valid_def)
    then have "trace (snd (main e s)) = phase_trace e ?I IMPLEMENTATION_PROMPTS"
      using fresh by (simp add: main_trace)
    with T1 1(1) show ?thesis by fastforce
  next
    case (2 i)
    with ord f have b: "phase_value e ?B BUGFIX_PROMPTS = Inl OSError"
      by (intro phase_value_fails [of _ _ _ i exc]) (simp_all add: orders_valid_def)
    have r: "phase_rank ?I \<le> phase_rank name" "phase_rank ?B \<le> phase_rank name"
      using 2(1) by (simp_all add: phase_rank_def)
    from fresh show ?thesis
    proof (cases rule: main_trace_shape [of s e])
      case stop1
      with T1 r show ?thesis by fastforce
    next
      case (go r1 R)
      from go(4) b have "R = []" by auto
      with go(2) have "set (trace (snd (main e s))) =
          set (phase_trace e ?I IMPLEMENTATION_PROMPTS) \<union> set (phase_trace e ?B BUGFIX_PROMPTS)"
        by simp
      with T1 T2 r show ?thesis by fastforce
    qed
  next
    case (3 i)
    then have "phase_rank q \<le> phase_rank name" for q
      by (simp add: phase_rank_def phase_names_distinct [symmetric])
    then show ?thesis by simp
  qed
qed

section \<open>The claims\<close>

subsection \<open>C1: one result per job\<close>

text \<open>
  C1, as amended. A phase with at least one job, all of whose processes can be started
  and all of whose reports can be written, returns exactly one result per job, whatever
  the exit status of each process and whether or not it ran into the timeout: the list
  of results has the length of the list of prompts and is, up to the order of
  completion, the list of each job's report path with its exit code (the process's own
  status, or 124 after a timeout). No job is skipped, duplicated or dropped.
\<close>

theorem run_phase_one_result_per_job:
  assumes ne: "prompts \<noteq> []"
      and ord: "completion_order (length prompts) (as_completed e name)"
      and st: "\<forall>i<length prompts. starts (spawn e name (int i + 1) (agent_cmd (prompts ! i)))"
      and wr: "\<forall>i<length prompts. \<forall>data. writable e (str_path (out_file e name (int i + 1))) data"
  shows "\<exists>results. fst (run_phase e name prompts s) = Inr results \<and>
           length results = length prompts \<and>
           mset results =
             mset (map (\<lambda>i. (str_path (out_file e name (int i + 1)),
                             exit_code_of (spawn e name (int i + 1) (agent_cmd (prompts ! i)))))
                     [0..<length prompts])"
proof -
  let ?f = "\<lambda>i. (str_path (out_file e name (int i + 1)),
                  exit_code_of (spawn e name (int i + 1) (agent_cmd (prompts ! i))))"
  have res: "fst (run_phase e name prompts s) = Inr (map ?f (as_completed e name))"
    using phase_value_all_ok [OF ne ord st wr] by (simp add: run_phase_fst_state)
  have "mset (map ?f (as_completed e name)) = mset (map ?f [0..<length prompts])"
    using completion_order_mset [OF ord] by (metis mset_map)
  moreover have "length (map ?f (as_completed e name)) = length prompts"
    using completion_order_length [OF ord] by simp
  ultimately show ?thesis using res by blast
qed

theorem run_phase_one_result_per_job_witness:
  "[str ''a'', str ''b''] \<noteq> [] \<and>
   completion_order (length [str ''a'', str ''b'']) (as_completed slow_env (str ''x'')) \<and>
   (\<exists>results. fst (run_phase slow_env (str ''x'') [str ''a'', str ''b''] empty_state) = Inr results \<and>
      length results = 2 \<and>
      mset results =
        {#(str_path (out_file slow_env (str ''x'') 1), 124),
          (str_path (out_file slow_env (str ''x'') 2), 124)#})"
proof -
  have ne: "[str ''a'', str ''b''] \<noteq> []" by simp
  have ord: "completion_order (length [str ''a'', str ''b'']) (as_completed slow_env (str ''x''))"
    by (auto simp add: completion_order_def slow_env_def calm_env_def str_def)
  have st: "\<forall>i<length [str ''a'', str ''b''].
      starts (spawn slow_env (str ''x'') (int i + 1) (agent_cmd ([str ''a'', str ''b''] ! i)))"
    by (simp add: slow_env_def slow_process_def)
  have wr: "\<forall>i<length [str ''a'', str ''b''].
      \<forall>data. writable slow_env (str_path (out_file slow_env (str ''x'') (int i + 1))) data"
    by (simp add: slow_env_def calm_env_def)
  have up: "[0..<length [str ''a'', str ''b'']] = [0, 1]"
    by (simp add: upt_rec)
  have ex: "exit_code_of slow_process = 124"
    by (simp add: exit_code_of_def slow_process_def TIMEOUT_def)
  from run_phase_one_result_per_job [OF ne ord st wr, of empty_state] ne ord
  show ?thesis
    by (simp only: up) (auto simp add: slow_env_def ex)
qed

text \<open>
  The claim as stated, for every outcome of a job, fails in the world \<open>broken_env\<close>: the
  first phase has eight jobs, its futures complete in some order and every write
  succeeds, but the process of the third job cannot be started, and \<^verbatim>\<open>run_phase\<close>
  raises instead of returning eight results.
\<close>

theorem run_phase_start_failure_counterexample:
  "length IMPLEMENTATION_PROMPTS = 8 \<and>
   completion_order (length IMPLEMENTATION_PROMPTS) (as_completed broken_env (str ''implementation'')) \<and>
   (\<forall>path data. writable broken_env path data) \<and>
   fst (run_phase broken_env (str ''implementation'') IMPLEMENTATION_PROMPTS empty_state) =
     Inl OSError"
proof -
  have "completion_order (length IMPLEMENTATION_PROMPTS)
          (as_completed broken_env (str ''implementation''))"
    using broken_orders_valid by (simp add: orders_valid_def)
  moreover have "\<forall>path data. writable broken_env path data"
    by (simp add: broken_env_def calm_env_def)
  moreover have "fst (run_phase broken_env (str ''implementation'') IMPLEMENTATION_PROMPTS
                        empty_state) = Inl OSError"
    using broken_phase_fails by (simp add: run_phase_fst_state)
  ultimately show ?thesis by (simp add: prompt_count)
qed

subsection \<open>C2: phases do not overlap\<close>

text \<open>
  C2. In the trace of \<^verbatim>\<open>main\<close>, started from an empty trace, the phases appear in the
  order implementation, bugfix, docs, and never overlap: when the first job of a phase
  is submitted, every job of each earlier phase has completed, and from then on no job
  of an earlier phase is submitted or completes. This holds for every world in which
  the futures of each phase complete in some order, whether \<^verbatim>\<open>main\<close> returns or raises.
\<close>

theorem phases_never_overlap:
  assumes ord: "orders_valid e" and fresh: "trace s = []"
  shows "resolved_before (trace (snd (main e s)))
           (str ''implementation'') (length IMPLEMENTATION_PROMPTS) (str ''bugfix'') \<and>
         resolved_before (trace (snd (main e s)))
           (str ''bugfix'') (length BUGFIX_PROMPTS) (str ''docs'') \<and>
         resolved_before (trace (snd (main e s)))
           (str ''implementation'') (length IMPLEMENTATION_PROMPTS) (str ''docs'')"
  using fresh
proof (cases rule: main_trace_shape [of s e])
  case stop1
  let ?T1 = "phase_trace e (str ''implementation'') IMPLEMENTATION_PROMPTS"
  have "resolved_before (?T1 @ []) p k q" if "str ''implementation'' \<noteq> q" for p k q
    using phase_trace_other [OF that] by (intro resolved_before_split) simp_all
  then have "resolved_before ?T1 p k q" if "str ''implementation'' \<noteq> q" for p k q
    using that by simp
  then show ?thesis
    using stop1 phase_names_distinct by simp
next
  case (go r1 R)
  let ?I = "str ''implementation''" and ?B = "str ''bugfix''" and ?D = "str ''docs''"
  let ?T1 = "phase_trace e ?I IMPLEMENTATION_PROMPTS"
  let ?T2 = "phase_trace e ?B BUGFIX_PROMPTS"
  have C1: "\<forall>i\<in>{1..int (length IMPLEMENTATION_PROMPTS)}. Completed ?I i \<in> set ?T1"
    using phase_trace_completed [of e ?I IMPLEMENTATION_PROMPTS r1] go(1) ord
    by (simp add: orders_valid_def)
  have C2: "\<forall>i\<in>{1..int (length BUGFIX_PROMPTS)}. Completed ?B i \<in> set ?T2" if "R \<noteq> []"
  proof -
    from go(4) [OF that] obtain r2 where "phase_value e ?B BUGFIX_PROMPTS = Inr r2" by blast
    with ord show ?thesis
      using phase_trace_completed [of e ?B BUGFIX_PROMPTS r2] by (simp add: orders_valid_def)
  qed
  have T1: "\<forall>ev\<in>set ?T1. phase_of ev \<noteq> Some q" if "?I \<noteq> q" for q
    using that by (rule phase_trace_other)
  have T2: "\<forall>ev\<in>set ?T2. phase_of ev \<noteq> Some q" if "?B \<noteq> q" for q
    using that by (rule phase_trace_other)
  have "resolved_before (?T1 @ (?T2 @ R)) ?I (length IMPLEMENTATION_PROMPTS) ?B"
  proof (rule resolved_before_split)
    show "\<forall>ev\<in>set ?T1. phase_of ev \<noteq> Some ?B"
      using T1 phase_names_distinct by blast
    show "\<forall>ev\<in>set (?T2 @ R). phase_of ev \<noteq> Some ?I"
      using T2 [of ?I] go(3) phase_names_distinct by fastforce
    show "\<forall>i\<in>{1..int (length IMPLEMENTATION_PROMPTS)}. Completed ?I i \<in> set ?T1"
      by (rule C1)
  qed
  moreover have "resolved_before ((?T1 @ ?T2) @ R) ?B (length BUGFIX_PROMPTS) ?D"
  proof (rule resolved_before_split)
    show "\<forall>ev\<in>set (?T1 @ ?T2). phase_of ev \<noteq> Some ?D"
      using T1 [of ?D] T2 [of ?D] phase_names_distinct by auto
    show "\<forall>ev\<in>set R. phase_of ev \<noteq> Some ?B"
      using go(3) phase_names_distinct by fastforce
    show "\<forall>i\<in>{1..int (length BUGFIX_PROMPTS)}. Completed ?B i \<in> set (?T1 @ ?T2)" if "R \<noteq> []"
      using C2 [OF that] by simp
  qed
  moreover have "resolved_before ((?T1 @ ?T2) @ R) ?I (length IMPLEMENTATION_PROMPTS) ?D"
  proof (rule resolved_before_split)
    show "\<forall>ev\<in>set (?T1 @ ?T2). phase_of ev \<noteq> Some ?D"
      using T1 [of ?D] T2 [of ?D] phase_names_distinct by auto
    show "\<forall>ev\<in>set R. phase_of ev \<noteq> Some ?I"
      using go(3) phase_names_distinct by fastforce
    show "\<forall>i\<in>{1..int (length IMPLEMENTATION_PROMPTS)}. Completed ?I i \<in> set (?T1 @ ?T2)"
      using C1 by simp
  qed
  ultimately show ?thesis
    using go(2) by simp
qed

theorem phases_never_overlap_witness:
  "orders_valid calm_env \<and> trace empty_state = [] \<and>
   from_first (str ''bugfix'') (trace (snd (main calm_env empty_state))) \<noteq> [] \<and>
   from_first (str ''docs'') (trace (snd (main calm_env empty_state))) \<noteq> [] \<and>
   resolved_before (trace (snd (main calm_env empty_state)))
     (str ''implementation'') (length IMPLEMENTATION_PROMPTS) (str ''bugfix'') \<and>
   resolved_before (trace (snd (main calm_env empty_state)))
     (str ''bugfix'') (length BUGFIX_PROMPTS) (str ''docs'')"
proof -
  have fresh: "trace empty_state = []" by (simp add: empty_state_def)
  from phases_never_overlap [OF calm_orders_valid fresh] calm_orders_valid fresh
    calm_later_phases_start
  show ?thesis by simp
qed

subsection \<open>C3: a process that cannot be started\<close>

text \<open>
  C3, as amended. The claim says that a job whose process cannot be started still
  yields a result with a non-zero exit status and that the run goes on. The script
  handles \<^verbatim>\<open>TimeoutExpired\<close> only: for a job of the script whose process cannot be
  started, \<^verbatim>\<open>run_agent\<close> raises \<^verbatim>\<open>OSError\<close> and writes nothing, \<^verbatim>\<open>main\<close> raises the
  same exception, the script exits with status 1, and no job of a later phase is ever
  submitted (the trace starts empty). When every process can be started and every
  report can be written, \<^verbatim>\<open>main\<close> returns, whatever the exit statuses and timeouts of
  the jobs: a job that fails or times out stops neither its siblings nor the later
  phases. And no job stops its siblings: in a phase whose name has no path separator,
  every job whose process starts and whose report can be written has its report on
  disk when \<^verbatim>\<open>run_phase\<close> is left, whether \<^verbatim>\<open>run_phase\<close> returns or raises.
\<close>

theorem start_failure_aborts_run:
  assumes "orders_valid e" and "(name, idx, prompt) \<in> set JOBS" and "trace s = []"
  shows "(\<not> starts (spawn e name idx (agent_cmd prompt)) \<longrightarrow>
            run_agent e name idx prompt fs = (Inl OSError, fs) \<and>
            fst (main e s) = Inl OSError \<and>
            exit_status (fst (script e s)) = 1 \<and>
            (\<forall>ev\<in>set (trace (snd (main e s))). \<forall>q. phase_of ev = Some q \<longrightarrow>
               phase_rank q \<le> phase_rank name)) \<and>
         (jobs_sound e \<longrightarrow> fst (main e s) = Inr ()) \<and>
         (\<forall>i<length prompts'.
            completion_order (length prompts') (as_completed e name') \<and> SEP \<notin> set name' \<and>
            starts (spawn e name' (int i + 1) (agent_cmd (prompts' ! i))) \<and>
            writable e (str_path (out_file e name' (int i + 1)))
              (job_report e name' (int i + 1) (prompts' ! i)) \<longrightarrow>
            files (snd (run_phase e name' prompts' s')) (str_path (out_file e name' (int i + 1))) =
              Some (job_report e name' (int i + 1) (prompts' ! i)))"
proof -
  have "run_agent e name idx prompt fs = (Inl OSError, fs) \<and>
        fst (main e s) = Inl OSError \<and> exit_status (fst (script e s)) = 1 \<and>
        (\<forall>ev\<in>set (trace (snd (main e s))). \<forall>q. phase_of ev = Some q \<longrightarrow>
           phase_rank q \<le> phase_rank name)"
    if ns: "\<not> starts (spawn e name idx (agent_cmd prompt))"
  proof -
    have m: "fst (main e s) = Inl OSError"
      using main_fails [OF assms(1,2) job_result_not_starts [OF ns]] .
    then have x: "exit_status (fst (script e s)) = 1"
      by (simp add: script_def exit_status_def)
    have t: "\<forall>ev\<in>set (trace (snd (main e s))). \<forall>q. phase_of ev = Some q \<longrightarrow>
           phase_rank q \<le> phase_rank name"
      using main_trace_after_failure [OF assms(1,2) job_result_not_starts [OF ns] assms(3)] .
    from m x t run_agent_not_starts [OF ns] show ?thesis by simp
  qed
  moreover have "fst (main e s) = Inr ()" if "jobs_sound e"
    using main_all_ok [OF assms(1) that] .
  moreover have "files (snd (run_phase e name' prompts' s')) (str_path (out_file e name' (int i + 1))) =
              Some (job_report e name' (int i + 1) (prompts' ! i))"
    if "i < length prompts'"
      "completion_order (length prompts') (as_completed e name')" "SEP \<notin> set name'"
      "starts (spawn e name' (int i + 1) (agent_cmd (prompts' ! i)))"
      "writable e (str_path (out_file e name' (int i + 1)))
         (job_report e name' (int i + 1) (prompts' ! i))" for i
    using run_phase_writes_report [OF that(2,3,1,4,5)] .
  ultimately show ?thesis by blast
qed

theorem start_failure_aborts_run_witness:
  "orders_valid broken_env \<and>
   (str ''implementation'', 3, IMPLEMENTATION_PROMPTS ! 2) \<in> set JOBS \<and>
   trace empty_state = [] \<and>
   \<not> starts (spawn broken_env (str ''implementation'') 3 (agent_cmd (IMPLEMENTATION_PROMPTS ! 2))) \<and>
   fst (main broken_env empty_state) = Inl OSError \<and>
   files (snd (run_phase broken_env (str ''implementation'') IMPLEMENTATION_PROMPTS empty_state))
     (str_path (out_file broken_env (str ''implementation'') 1)) =
     Some (job_report broken_env (str ''implementation'') 1 (IMPLEMENTATION_PROMPTS ! 0)) \<and>
   orders_valid calm_env \<and> jobs_sound calm_env \<and>
   fst (main calm_env empty_state) = Inr ()"
proof -
  let ?I = "str ''implementation''"
  have ns: "\<not> starts (spawn broken_env ?I 3 (agent_cmd (IMPLEMENTATION_PROMPTS ! 2)))"
    by (simp add: broken_env_def dead_process_def)
  have j: "(?I, 3, IMPLEMENTATION_PROMPTS ! 2) \<in> set JOBS"
    using JOBS_impl [of 2] by (simp add: prompt_count)
  have fresh: "trace empty_state = []"
    by (simp add: empty_state_def)
  have sib: "0 < length IMPLEMENTATION_PROMPTS \<and>
      completion_order (length IMPLEMENTATION_PROMPTS) (as_completed broken_env ?I) \<and>
      SEP \<notin> set ?I \<and>
      starts (spawn broken_env ?I (int 0 + 1) (agent_cmd (IMPLEMENTATION_PROMPTS ! 0))) \<and>
      writable broken_env (str_path (out_file broken_env ?I (int 0 + 1)))
        (job_report broken_env ?I (int 0 + 1) (IMPLEMENTATION_PROMPTS ! 0))"
    using broken_orders_valid
    by (simp add: prompt_count orders_valid_def)
       (simp add: broken_env_def calm_env_def quick_process_def str_def SEP_def)
  note broken = start_failure_aborts_run [OF broken_orders_valid j fresh,
      where fs = Map.empty and prompts' = IMPLEMENTATION_PROMPTS and name' = ?I
        and s' = empty_state]
  from broken ns have 1: "fst (main broken_env empty_state) = Inl OSError"
    by blast
  from broken sib have
    "files (snd (run_phase broken_env ?I IMPLEMENTATION_PROMPTS empty_state))
       (str_path (out_file broken_env ?I (int 0 + 1))) =
     Some (job_report broken_env ?I (int 0 + 1) (IMPLEMENTATION_PROMPTS ! 0))"
    by blast
  then have 2: "files (snd (run_phase broken_env ?I IMPLEMENTATION_PROMPTS empty_state))
       (str_path (out_file broken_env ?I 1)) =
     Some (job_report broken_env ?I 1 (IMPLEMENTATION_PROMPTS ! 0))"
    by simp
  from start_failure_aborts_run [OF calm_orders_valid j fresh, where fs = Map.empty]
    calm_jobs_sound
  have 3: "fst (main calm_env empty_state) = Inr ()"
    by blast
  from 1 2 3 ns j fresh broken_orders_valid calm_orders_valid calm_jobs_sound
  show ?thesis by simp
qed

text \<open>
  The claim as stated fails in the world \<open>broken_env\<close>: the third job of the first
  phase returns no result, the run aborts with status 1, and no job of the second phase
  is ever submitted.
\<close>

theorem start_failure_counterexample:
  "run_agent broken_env (str ''implementation'') 3 (IMPLEMENTATION_PROMPTS ! 2) Map.empty =
     (Inl OSError, Map.empty) \<and>
   fst (main broken_env empty_state) = Inl OSError \<and>
   exit_status (fst (script broken_env empty_state)) = 1 \<and>
   Submitted (str ''bugfix'') 1 \<notin> set (trace (snd (main broken_env empty_state)))"
proof -
  let ?I = "str ''implementation''"
  have ns: "\<not> starts (spawn broken_env ?I 3 (agent_cmd (IMPLEMENTATION_PROMPTS ! 2)))"
    by (simp add: broken_env_def dead_process_def)
  then have 1: "run_agent broken_env ?I 3 (IMPLEMENTATION_PROMPTS ! 2) Map.empty =
     (Inl OSError, Map.empty)"
    by (rule run_agent_not_starts)
  have j: "(?I, 3, IMPLEMENTATION_PROMPTS ! 2) \<in> set JOBS"
    using JOBS_impl [of 2] by (simp add: prompt_count)
  have 2: "fst (main broken_env s) = Inl OSError" for s
    using main_fails [OF broken_orders_valid j job_result_not_starts [OF ns]] .
  have 3: "exit_status (fst (script broken_env empty_state)) = 1"
    using 2 by (simp add: script_def exit_status_def broken_env_def calm_env_def)
  have "phase_value broken_env ?I IMPLEMENTATION_PROMPTS = Inl OSError"
    using phase_value_fails [OF _ _ job_result_not_starts, of IMPLEMENTATION_PROMPTS broken_env ?I 2]
      ns broken_orders_valid by (simp add: orders_valid_def prompt_count)
  then have "trace (snd (main broken_env empty_state)) =
      phase_trace broken_env ?I IMPLEMENTATION_PROMPTS"
    by (simp add: main_trace empty_state_def)
  moreover have "phase_of (Submitted (str ''bugfix'') 1) = Some (str ''bugfix'')"
    by (simp add: phase_of_def)
  ultimately have 4: "Submitted (str ''bugfix'') 1 \<notin> set (trace (snd (main broken_env empty_state)))"
    using phase_trace_other [OF phase_names_distinct(1), of broken_env IMPLEMENTATION_PROMPTS]
    by auto
  from 1 2 3 4 show ?thesis by simp
qed

subsection \<open>C4: the timeout\<close>

text \<open>
  C4. Take a job whose process starts and whose report can be written. If the process
  never exits, or exits after more than 120 seconds, then the captured standard output
  is the decoded partial output (the empty text when none was collected), the captured
  standard error is the decoded partial error output followed by a line break (code
  point 10) and the marker \<^verbatim>\<open>TIMEOUT\<close> (code points 84, 73, 77, 69, 79, 85, 84), and the
  exit code is 124; \<^verbatim>\<open>run_agent\<close> returns the report path with 124 and writes the
  report built from these, whose standard error block, that text stripped, still ends
  with the marker. If the process exits after at most 120 seconds, nothing of this
  happens: both streams are decoded in full, no marker is added, and the exit code is
  the status of the process.
\<close>

theorem timeout_gives_sentinel:
  assumes "spawn e phase idx (agent_cmd prompt) = p"
      and "starts p"
      and "\<forall>data. writable e (str_path (out_file e phase idx)) data"
  shows "(run_time p = None \<or> (\<exists>d. run_time p = Some d \<and> 120 < d) \<longrightarrow>
          (\<exists>out err.
             decode (case partial_out p of None \<Rightarrow> [] | Some b \<Rightarrow> b) Replace = Inr out \<and>
             decode (case partial_err p of None \<Rightarrow> [] | Some b \<Rightarrow> b) Replace = Inr err \<and>
             capture p = Inr (out, err @ [10, 84, 73, 77, 69, 79, 85, 84], 124) \<and>
             run_agent e phase idx prompt fs =
               (Inr (str_path (out_file e phase idx), 124),
                fs(str_path (out_file e phase idx) \<mapsto>
                     join [10] (report_body phase idx prompt 124 out
                                  (err @ [10, 84, 73, 77, 69, 79, 85, 84])))) \<and>
             (\<exists>pre. strip (err @ [10, 84, 73, 77, 69, 79, 85, 84]) =
                      pre @ [84, 73, 77, 69, 79, 85, 84]))) \<and>
         ((\<exists>d. run_time p = Some d \<and> d \<le> 120) \<longrightarrow>
          (\<exists>out err.
             decode (out_bytes p) Replace = Inr out \<and> decode (err_bytes p) Replace = Inr err \<and>
             capture p = Inr (out, err, status p) \<and>
             run_agent e phase idx prompt fs =
               (Inr (str_path (out_file e phase idx), status p),
                fs(str_path (out_file e phase idx) \<mapsto>
                     join [10] (report_body phase idx prompt (status p) out err)))))"
proof (intro conjI impI)
  assume "run_time p = None \<or> (\<exists>d. run_time p = Some d \<and> 120 < d)"
  from capture_late [OF assms(2) this] obtain out err where
    d: "decode (case partial_out p of None \<Rightarrow> [] | Some b \<Rightarrow> b) Replace = Inr out"
       "decode (case partial_err p of None \<Rightarrow> [] | Some b \<Rightarrow> b) Replace = Inr err" and
    c: "capture p = Inr (out, err @ [10, 84, 73, 77, 69, 79, 85, 84], 124)"
    by blast
  from c assms(1,3) have "run_agent e phase idx prompt fs =
               (Inr (str_path (out_file e phase idx), 124),
                fs(str_path (out_file e phase idx) \<mapsto>
                     join [10] (report_body phase idx prompt 124 out
                                  (err @ [10, 84, 73, 77, 69, 79, 85, 84]))))"
    by (simp add: run_agent_def write_text_def NL_def)
  with d c strip_timeout_marker [of err]
  show "\<exists>out err.
             decode (case partial_out p of None \<Rightarrow> [] | Some b \<Rightarrow> b) Replace = Inr out \<and>
             decode (case partial_err p of None \<Rightarrow> [] | Some b \<Rightarrow> b) Replace = Inr err \<and>
             capture p = Inr (out, err @ [10, 84, 73, 77, 69, 79, 85, 84], 124) \<and>
             run_agent e phase idx prompt fs =
               (Inr (str_path (out_file e phase idx), 124),
                fs(str_path (out_file e phase idx) \<mapsto>
                     join [10] (report_body phase idx prompt 124 out
                                  (err @ [10, 84, 73, 77, 69, 79, 85, 84])))) \<and>
             (\<exists>pre. strip (err @ [10, 84, 73, 77, 69, 79, 85, 84]) =
                      pre @ [84, 73, 77, 69, 79, 85, 84])"
    by blast
next
  assume "\<exists>d. run_time p = Some d \<and> d \<le> 120"
  then obtain d where "run_time p = Some d" "d \<le> 120" by blast
  from capture_on_time [OF assms(2) this] obtain out err where
    d: "decode (out_bytes p) Replace = Inr out" "decode (err_bytes p) Replace = Inr err" and
    c: "capture p = Inr (out, err, status p)"
    by blast
  from c assms(1,3) have "run_agent e phase idx prompt fs =
               (Inr (str_path (out_file e phase idx), status p),
                fs(str_path (out_file e phase idx) \<mapsto>
                     join [10] (report_body phase idx prompt (status p) out err)))"
    by (simp add: run_agent_def write_text_def NL_def)
  with d c
  show "\<exists>out err.
             decode (out_bytes p) Replace = Inr out \<and> decode (err_bytes p) Replace = Inr err \<and>
             capture p = Inr (out, err, status p) \<and>
             run_agent e phase idx prompt fs =
               (Inr (str_path (out_file e phase idx), status p),
                fs(str_path (out_file e phase idx) \<mapsto>
                     join [10] (report_body phase idx prompt (status p) out err)))"
    by blast
qed

theorem timeout_gives_sentinel_witness:
  "starts late_process \<and> run_time late_process = Some 121 \<and> (120::nat) < 121 \<and>
   partial_out late_process = Some [0x68, 0x69] \<and>
   partial_err late_process = Some [0x6F, 0x6F, 0x70, 0x73, 0xFF] \<and>
   spawn (process_env late_process) (str ''docs'') 1 (agent_cmd (str ''p'')) = late_process \<and>
   (\<forall>data. writable (process_env late_process)
             (str_path (out_file (process_env late_process) (str ''docs'') 1)) data) \<and>
   capture late_process =
     Inr ([104, 105], [111, 111, 112, 115, 0xFFFD, 10, 84, 73, 77, 69, 79, 85, 84], 124) \<and>
   fst (run_agent (process_env late_process) (str ''docs'') 1 (str ''p'') Map.empty) =
     Inr (str ''/repo/docs/agent_runs/docs_01_20250102_120000.md'', 124) \<and>
   Option.bind
     (snd (run_agent (process_env late_process) (str ''docs'') 1 (str ''p'') Map.empty)
        (str ''/repo/docs/agent_runs/docs_01_20250102_120000.md''))
     read_report =
     Some (124, str ''p'', [104, 105],
           [111, 111, 112, 115, 0xFFFD, 10, 84, 73, 77, 69, 79, 85, 84]) \<and>
   run_time on_time_process = Some 120 \<and>
   capture on_time_process = Inr ([100, 111, 110, 101], [], 3) \<and>
   fst (run_agent (process_env on_time_process) (str ''docs'') 1 (str ''p'') Map.empty) =
     Inr (str ''/repo/docs/agent_runs/docs_01_20250102_120000.md'', 3) \<and>
   run_time stuck_process = None \<and> partial_err stuck_process = None \<and>
   capture stuck_process = Inr ([], [10, 84, 73, 77, 69, 79, 85, 84], 124)"
proof -
  let ?path = "str ''/repo/docs/agent_runs/docs_01_20250102_120000.md''"
  let ?err = "[111, 111, 112, 115, 0xFFFD, 10, 84, 73, 77, 69, 79, 85, 84] :: pystr"
  have path: "str_path (out_file (process_env q) (str ''docs'') 1) = ?path" for q
    by (simp add: out_file_def process_env_def calm_env_def noon_def OUT_DIR_def joinpath_def
        path_root_def path_names_def str_def SEP_def out_name_def strftime_def fmt_0d_def Let_def
        digits.simps str_path_def)
  have sp: "spawn (process_env q) (str ''docs'') 1 (agent_cmd (str ''p'')) = q" for q
    by (simp add: process_env_def)
  have wr: "\<forall>data. writable (process_env q)
               (str_path (out_file (process_env q) (str ''docs'') 1)) data" for q
    by (simp add: process_env_def calm_env_def)
  have l1: "starts late_process" by (simp add: late_process_def)
  have l2: "run_time late_process = Some 121" by (simp add: late_process_def)
  have l3: "partial_out late_process = Some [0x68, 0x69]" by (simp add: late_process_def)
  have l4: "partial_err late_process = Some [0x6F, 0x6F, 0x70, 0x73, 0xFF]"
    by (simp add: late_process_def)
  have d1: "decode [0x68, 0x69] Replace = Inr [104, 105]"
    by (simp add: decode_def utf8_step_def)
  have d2: "decode [0x6F, 0x6F, 0x70, 0x73, 0xFF] Replace = Inr [111, 111, 112, 115, 0xFFFD]"
    by (simp add: decode_def utf8_step_def REPLACEMENT_def)
  from timeout_gives_sentinel [OF sp l1 wr, where fs = Map.empty] l2
  have late: "capture late_process = Inr ([104, 105], ?err, 124)"
    "run_agent (process_env late_process) (str ''docs'') 1 (str ''p'') Map.empty =
       (Inr (?path, 124),
        [?path \<mapsto> join [10] (report_body (str ''docs'') 1 (str ''p'') 124 [104, 105] ?err)])"
    by (auto simp add: l3 l4 d1 d2 path)
  have s1: "strip [104, 105] = [104, 105]"
    by (simp add: strip_def lstrip_def rstrip_def isspace_def)
  have s2: "strip ?err = ?err"
    by (simp add: strip_def lstrip_def rstrip_def isspace_def)
  have "read_report (join [NL] (report_body (str ''docs'') 1 (str ''p'') 124 [104, 105] ?err)) =
          Some (124, str ''p'', strip [104, 105], strip ?err)"
    by (rule read_report_body) (simp_all add: s1 str_def NL_def FENCE_def)
  then have rd: "read_report (join [10] (report_body (str ''docs'') 1 (str ''p'') 124 [104, 105] ?err)) =
          Some (124, str ''p'', [104, 105], ?err)"
    by (simp only: s1 s2 NL_def)
  have o1: "starts on_time_process" by (simp add: on_time_process_def late_process_def)
  have o2: "run_time on_time_process = Some 120" by (simp add: on_time_process_def)
  have o3: "out_bytes on_time_process = [0x64, 0x6F, 0x6E, 0x65]"
    "err_bytes on_time_process = []" "status on_time_process = 3"
    by (simp_all add: on_time_process_def late_process_def)
  have d3: "decode [0x64, 0x6F, 0x6E, 0x65] Replace = Inr [100, 111, 110, 101]"
    by (simp add: decode_def utf8_step_def)
  have d4: "decode [] Replace = Inr []"
    by (simp add: decode_def)
  from timeout_gives_sentinel [OF sp o1 wr, where fs = Map.empty] o2
  have on_time: "capture on_time_process = Inr ([100, 111, 110, 101], [], 3)"
    "fst (run_agent (process_env on_time_process) (str ''docs'') 1 (str ''p'') Map.empty) =
       Inr (?path, 3)"
    by (auto simp add: o3 d3 d4 path)
  have k1: "starts stuck_process" by (simp add: stuck_process_def late_process_def)
  have k2: "run_time stuck_process = None" by (simp add: stuck_process_def)
  have k3: "partial_out stuck_process = None" "partial_err stuck_process = None"
    by (simp_all add: stuck_process_def)
  from timeout_gives_sentinel [OF sp k1 wr, where fs = Map.empty] k2
  have stuck: "capture stuck_process = Inr ([], [10, 84, 73, 77, 69, 79, 85, 84], 124)"
    by (auto simp add: k3 d4)
  from late rd have "Option.bind
     (snd (run_agent (process_env late_process) (str ''docs'') 1 (str ''p'') Map.empty) ?path)
     read_report = Some (124, str ''p'', [104, 105], ?err)"
    by simp
  with late on_time stuck l1 l2 l3 l4 o2 k2 k3 sp [of late_process] wr [of late_process]
  show ?thesis by simp
qed


subsection \<open>C5: the tally\<close>

text \<open>
  C5. When \<^verbatim>\<open>main\<close> returns, the last line it prints gives, as the number of successes,
  the number of jobs of the three phases whose result has exit code exactly 0, and, as
  the total, the sum of the job counts of the three phases.
\<close>

theorem summary_counts:
  assumes ord: "orders_valid e" and ret: "fst (main e s) = Inr ()"
  shows "last (trace (snd (main e s))) =
           Printed (str ''All phases complete. Successful agents: '' @
                    str_int (int (successes e JOBS)) @ str ''/'' @
                    str_int (int (length IMPLEMENTATION_PROMPTS + length BUGFIX_PROMPTS +
                                  length DOC_PROMPTS)))"
proof -
  from ret obtain r1 r2 r3 where
    r1: "phase_value e (str ''implementation'') IMPLEMENTATION_PROMPTS = Inr r1" and
    r2: "phase_value e (str ''bugfix'') BUGFIX_PROMPTS = Inr r2" and
    r3: "phase_value e (str ''docs'') DOC_PROMPTS = Inr r3"
    by (auto simp add: main_fst split: sum.splits)
  from ord have o:
    "completion_order (length IMPLEMENTATION_PROMPTS) (as_completed e (str ''implementation''))"
    "completion_order (length BUGFIX_PROMPTS) (as_completed e (str ''bugfix''))"
    "completion_order (length DOC_PROMPTS) (as_completed e (str ''docs''))"
    by (simp_all add: orders_valid_def)
  have "count_ok (r1 @ r2 @ r3) = int (successes e JOBS)"
    using phase_count(1) [OF r1 o(1)] phase_count(1) [OF r2 o(2)] phase_count(1) [OF r3 o(3)]
    by (simp add: count_ok_append successes_append JOBS_def)
  moreover have "length (r1 @ r2 @ r3) =
      length IMPLEMENTATION_PROMPTS + length BUGFIX_PROMPTS + length DOC_PROMPTS"
    using phase_count(2) [OF r1 o(1)] phase_count(2) [OF r2 o(2)] phase_count(2) [OF r3 o(3)]
    by simp
  moreover have "last (trace (snd (main e s))) = summary_line (r1 @ r2 @ r3)"
    using r1 r2 r3 by (simp add: main_trace)
  ultimately show ?thesis
    by (simp only: summary_line_def)
qed

theorem summary_counts_witness:
  "orders_valid calm_env \<and> fst (main calm_env empty_state) = Inr () \<and>
   last (trace (snd (main calm_env empty_state))) =
     Printed (str ''All phases complete. Successful agents: 18/18'')"
proof -
  have ret: "fst (main calm_env empty_state) = Inr ()"
    using calm_orders_valid calm_jobs_sound by (rule main_all_ok)
  have "str_int (int 18) = str ''18''"
    by (simp add: str_int_def str_def digits.simps)
  with summary_counts [OF calm_orders_valid ret] calm_orders_valid ret
  show ?thesis
    by (simp add: calm_successes prompt_count str_def)
qed

subsection \<open>C6: distinct report paths\<close>

text \<open>
  C6. For any two jobs of the run that differ in their phase name or in their index, the
  names of the report files are distinct, whatever the two clock readings are, equal
  ones included, and they stay distinct when case is ignored. The name of a report file
  contains no \<^verbatim>\<open>/\<close> (47), no backslash (92) and no colon (58), so the report file is the
  output directory with this one name appended, and the report paths of the two jobs
  are distinct.
\<close>

theorem run_artifact_paths_unique:
  assumes "(phase1, idx1, prompt1) \<in> set JOBS" and "(phase2, idx2, prompt2) \<in> set JOBS"
      and "(phase1, idx1) \<noteq> (phase2, idx2)"
  shows "out_name phase1 idx1 (strftime d1) \<noteq> out_name phase2 idx2 (strftime d2) \<and>
         ascii_lower (out_name phase1 idx1 (strftime d1)) \<noteq>
           ascii_lower (out_name phase2 idx2 (strftime d2)) \<and>
         47 \<notin> set (out_name phase1 idx1 (strftime d1)) \<and>
         92 \<notin> set (out_name phase1 idx1 (strftime d1)) \<and>
         58 \<notin> set (out_name phase1 idx1 (strftime d1)) \<and>
         out_file e phase1 idx1 =
           Path (root (OUT_DIR e))
             (names (OUT_DIR e) @ [out_name phase1 idx1 (strftime (now e phase1 idx1))]) \<and>
         str_path (out_file e phase1 idx1) \<noteq> str_path (out_file e phase2 idx2)"
proof -
  have n: "out_name phase1 idx1 (strftime d1) \<noteq> out_name phase2 idx2 (strftime d2)"
    using out_name_inj [of phase1 idx1 d1 phase2 idx2 d2] assms(3) by auto
  then have "ascii_lower (out_name phase1 idx1 (strftime d1)) \<noteq>
           ascii_lower (out_name phase2 idx2 (strftime d2))"
    by (simp add: job_out_name(4) [OF assms(1)] job_out_name(4) [OF assms(2)])
  moreover have "str_path (out_file e phase1 idx1) \<noteq> str_path (out_file e phase2 idx2)"
    using artifact_paths_distinct [OF job_out_name(5) [OF assms(1)] job_out_name(5) [OF assms(2)]
        assms(3)]
    by (simp add: out_file_def)
  ultimately show ?thesis
    using n job_out_name(1,2,3) [OF assms(1)] out_file_plain [OF job_out_name(5) [OF assms(1)]]
    by blast
qed

theorem run_artifact_paths_unique_witness:
  "(str ''implementation'', 1, IMPLEMENTATION_PROMPTS ! 0) \<in> set JOBS \<and>
   (str ''bugfix'', 1, BUGFIX_PROMPTS ! 0) \<in> set JOBS \<and>
   (str ''implementation'', 1::int) \<noteq> (str ''bugfix'', 1) \<and>
   now calm_env (str ''implementation'') 1 = now calm_env (str ''bugfix'') 1 \<and>
   out_name (str ''implementation'') 1 (strftime noon) =
     str ''implementation_01_20250102_120000.md'' \<and>
   out_name (str ''bugfix'') 1 (strftime noon) = str ''bugfix_01_20250102_120000.md'' \<and>
   str_path (out_file calm_env (str ''implementation'') 1) =
     str ''/repo/docs/agent_runs/implementation_01_20250102_120000.md'' \<and>
   str_path (out_file calm_env (str ''implementation'') 1) \<noteq>
     str_path (out_file calm_env (str ''bugfix'') 1) \<and>
   (str ''implementation'', 2, IMPLEMENTATION_PROMPTS ! 1) \<in> set JOBS \<and>
   (str ''implementation'', 1::int) \<noteq> (str ''implementation'', 2) \<and>
   now calm_env (str ''implementation'') 1 = now calm_env (str ''implementation'') 2 \<and>
   str_path (out_file calm_env (str ''implementation'') 1) \<noteq>
     str_path (out_file calm_env (str ''implementation'') 2)"
proof -
  have 1: "(str ''implementation'', 1, IMPLEMENTATION_PROMPTS ! 0) \<in> set JOBS"
    using JOBS_impl [of 0] by (simp add: prompt_count)
  have 7: "(str ''implementation'', 2, IMPLEMENTATION_PROMPTS ! 1) \<in> set JOBS"
    using JOBS_impl [of 1] by (simp add: prompt_count)
  have 8: "(str ''implementation'', 1::int) \<noteq> (str ''implementation'', 2)" by simp
  have 9: "now calm_env (str ''implementation'') 1 = now calm_env (str ''implementation'') 2"
    by (simp add: calm_env_def)
  have 2: "(str ''bugfix'', 1, BUGFIX_PROMPTS ! 0) \<in> set JOBS"
    using JOBS_bugfix [of 0] by (simp add: prompt_count)
  have 3: "(str ''implementation'', 1::int) \<noteq> (str ''bugfix'', 1)" by (simp add: str_def)
  have 4: "now calm_env (str ''implementation'') 1 = now calm_env (str ''bugfix'') 1"
    by (simp add: calm_env_def)
  have 5: "out_name (str ''implementation'') 1 (strftime noon) =
     str ''implementation_01_20250102_120000.md''"
    "out_name (str ''bugfix'') 1 (strftime noon) = str ''bugfix_01_20250102_120000.md''"
    by (simp_all add: out_name_def strftime_def noon_def fmt_0d_def Let_def digits.simps str_def)
  have 6: "str_path (out_file calm_env (str ''implementation'') 1) =
     str ''/repo/docs/agent_runs/implementation_01_20250102_120000.md''"
    by (simp add: out_file_def calm_env_def noon_def OUT_DIR_def joinpath_def
        path_root_def path_names_def str_def SEP_def out_name_def strftime_def fmt_0d_def Let_def
        digits.simps str_path_def)
  from run_artifact_paths_unique [OF 1 2 3, of _ _ calm_env]
    run_artifact_paths_unique [OF 1 7 8, of _ _ calm_env] 1 2 3 4 5 6 7 8 9
  show ?thesis by simp
qed


subsection \<open>C7: reading a report back\<close>

text \<open>
  C7, as amended. From the report of a job whose phase name and prompt contain no
  line break, and whose stripped standard output has no line that is the delimiter,
  the reader recovers the exit code, the prompt, and both output texts with their
  leading and trailing white space removed; the texts may be empty and may contain
  any code points.
\<close>

theorem report_roundtrip:
  assumes "NL \<notin> set phase" and "NL \<notin> set prompt" and "FENCE \<notin> set (split_on NL (strip out))"
  shows "read_report (join [NL] (report_body phase idx prompt code out err)) =
           Some (code, prompt, strip out, strip err)"
  using assms by (rule read_report_body)

theorem report_roundtrip_witness:
  "NL \<notin> set (str ''docs'') \<and> NL \<notin> set (str ''p'') \<and>
   FENCE \<notin> set (split_on NL (strip [0x4E2D, NL, 0x6587])) \<and>
   read_report (join [NL] (report_body (str ''docs'') 2 (str ''p'') (-9) [0x4E2D, NL, 0x6587] [])) =
     Some (-9, str ''p'', [0x4E2D, NL, 0x6587], [])"
proof -
  have s: "strip [0x4E2D, NL, 0x6587] = [0x4E2D, NL, 0x6587]" "strip [] = []"
    by (simp_all add: strip_def lstrip_def rstrip_def isspace_def NL_def)
  have 1: "NL \<notin> set (str ''docs'')" by (simp add: str_def NL_def)
  have 2: "NL \<notin> set (str ''p'')" by (simp add: str_def NL_def)
  have 3: "FENCE \<notin> set (split_on NL (strip [0x4E2D, NL, 0x6587]))"
    by (simp add: s) (simp add: NL_def FENCE_def)
  from report_roundtrip [OF 1 2 3, of 2 "-9" "[]"] 1 2 3 show ?thesis by (simp add: s)
qed

text \<open>
  The claim as stated, that both texts are recovered verbatim, fails: the report strips
  them, so two results that differ in a leading space have the same report.
\<close>

theorem report_roundtrip_counterexample:
  "str '' x'' \<noteq> str ''x'' \<and>
   join [NL] (report_body (str ''docs'') 1 (str ''p'') 0 (str '' x'') []) =
   join [NL] (report_body (str ''docs'') 1 (str ''p'') 0 (str ''x'') []) \<and>
   read_report (join [NL] (report_body (str ''docs'') 1 (str ''p'') 0 (str '' x'') [])) =
     Some (0, str ''p'', str ''x'', [])"
proof -
  have s: "strip (str '' x'') = str ''x''" "strip (str ''x'') = str ''x''" "strip [] = []"
    by (simp_all add: strip_def lstrip_def rstrip_def str_def isspace_def)
  have 1: "str '' x'' \<noteq> str ''x''" by (simp add: str_def)
  have 2: "join [NL] (report_body (str ''docs'') 1 (str ''p'') 0 (str '' x'') []) =
           join [NL] (report_body (str ''docs'') 1 (str ''p'') 0 (str ''x'') [])"
    by (simp add: report_body_def s)
  have n: "NL \<notin> set (str ''docs'')" "NL \<notin> set (str ''p'')"
    by (simp_all add: str_def NL_def)
  have f: "FENCE \<notin> set (split_on NL (strip (str '' x'')))"
    by (simp add: s) (simp add: str_def NL_def FENCE_def)
  have "read_report (join [NL] (report_body (str ''docs'') 1 (str ''p'') 0 (str '' x'') [])) =
     Some (0, str ''p'', strip (str '' x''), strip [])"
    using n f by (rule read_report_body)
  with 1 2 show ?thesis by (simp add: s)
qed

subsection \<open>C8: the exit status of the script\<close>

text \<open>
  C8, as amended. The script exits with status 0 exactly when the output directory can
  be created, every process of the script can be started and every report can be
  written. Exit statuses and timeouts of the jobs have no part in it: they are recorded
  in the results. A job whose process cannot be started does abort the run, as a
  directory that cannot be created and a report that cannot be written do.
\<close>

theorem script_exit_status:
  assumes "orders_valid e"
  shows "exit_status (fst (script e s)) = 0 \<longleftrightarrow>
         mkdir_ok e \<and>
         (\<forall>(name, idx, prompt)\<in>set JOBS.
            starts (spawn e name idx (agent_cmd prompt)) \<and>
            writable e (str_path (out_file e name idx)) (job_report e name idx prompt))"
proof (cases "mkdir_ok e")
  case False
  then show ?thesis by (simp add: script_def exit_status_def)
next
  case True
  have "exit_status (fst (main e s)) = 0 \<longleftrightarrow> fst (main e s) = Inr ()"
    by (auto simp add: exit_status_cases)
  with True show ?thesis
    using main_returns_iff [OF assms, of s]
    by (simp add: script_def job_result_Inr_iff [symmetric] split_beta)
qed

theorem script_exit_status_witness:
  "orders_valid slow_env \<and> exit_status (fst (script slow_env empty_state)) = 0"
proof -
  have "mkdir_ok slow_env \<and>
         (\<forall>(name, idx, prompt)\<in>set JOBS.
            starts (spawn slow_env name idx (agent_cmd prompt)) \<and>
            writable slow_env (str_path (out_file slow_env name idx))
              (job_report slow_env name idx prompt))"
    by (simp add: slow_env_def calm_env_def slow_process_def split_beta)
  with script_exit_status [OF slow_orders_valid, of empty_state] slow_orders_valid
  show ?thesis by simp
qed

text \<open>
  The claim as stated fails in the world \<open>broken_env\<close>: the output directory can be
  created and every write succeeds, no internal fault occurs, and yet the script exits
  with status 1, because the process of one job cannot be started.
\<close>

theorem script_exit_status_counterexample:
  "mkdir_ok broken_env \<and> (\<forall>path data. writable broken_env path data) \<and>
   orders_valid broken_env \<and>
   fst (script broken_env empty_state) = Inl OSError \<and>
   exit_status (fst (script broken_env empty_state)) = 1"
proof -
  have m: "mkdir_ok broken_env" "\<forall>path data. writable broken_env path data"
    by (simp_all add: broken_env_def calm_env_def)
  with broken_main_fails [of empty_state]
  have "fst (script broken_env empty_state) = Inl OSError"
    by (simp add: script_def)
  then show ?thesis using m broken_orders_valid
    by (simp add: exit_status_def)
qed

subsection \<open>C9: decoding never raises\<close>

text \<open>
  C9. Decoding captured bytes with \<^verbatim>\<open>errors="replace"\<close> returns a text for every byte
  sequence. Either the bytes are well-formed UTF-8 and the text is the one they encode,
  or they are the encoding of no text and the result contains the replacement marker
  U+FFFD. A well-formed prefix is decoded to the text it encodes, whatever follows it,
  and a byte that can begin no sequence (\<^verbatim>\<open>0x80\<close> to \<^verbatim>\<open>0xC1\<close>, \<^verbatim>\<open>0xF5\<close> to \<^verbatim>\<open>0xFF\<close>)
  becomes one marker, with the bytes after it decoded behind it. Neither the \<^verbatim>\<open>try\<close>
  statement of \<^verbatim>\<open>run_agent\<close> nor \<^verbatim>\<open>run_agent\<close> itself ever raises a decoding error.
\<close>

theorem decode_replace_never_raises:
  "(\<exists>t. decode b Replace = Inr t \<and>
        (list_all scalar_value t \<and> utf8_encode t = map unat b \<or>
         (\<nexists>u. list_all scalar_value u \<and> utf8_encode u = map unat b) \<and> 0xFFFD \<in> set t)) \<and>
   (list_all scalar_value u \<and> utf8_encode u = map unat b1 \<longrightarrow>
      (\<exists>t. decode b2 Replace = Inr t \<and> decode (b1 @ b2) Replace = Inr (u @ t))) \<and>
   (0x80 \<le> unat x \<and> unat x < 0xC2 \<or> 0xF5 \<le> unat x \<longrightarrow>
      (\<exists>t. decode b2 Replace = Inr t \<and> decode (x # b2) Replace = Inr (0xFFFD # t))) \<and>
   capture p \<noteq> Inl UnicodeDecodeError \<and>
   fst (run_agent e phase idx prompt fs) \<noteq> Inl UnicodeDecodeError"
proof -
  have "\<exists>t. decode b Replace = Inr t \<and>
        (list_all scalar_value t \<and> utf8_encode t = map unat b \<or>
         (\<nexists>u. list_all scalar_value u \<and> utf8_encode u = map unat b) \<and> 0xFFFD \<in> set t)"
    using decode_replace_spec [of "map unat b"] by (simp add: decode_def)
  moreover have "list_all scalar_value u \<and> utf8_encode u = map unat b1 \<longrightarrow>
      (\<exists>t. decode b2 Replace = Inr t \<and> decode (b1 @ b2) Replace = Inr (u @ t))"
    using decode_valid_prefix by blast
  moreover have "0x80 \<le> unat x \<and> unat x < 0xC2 \<or> 0xF5 \<le> unat x \<longrightarrow>
      (\<exists>t. decode b2 Replace = Inr t \<and> decode (x # b2) Replace = Inr (0xFFFD # t))"
    using decode_invalid_lead by blast
  moreover have "capture p \<noteq> Inl UnicodeDecodeError"
    using capture_exn [of p UnicodeDecodeError] by auto
  moreover have "fst (run_agent e phase idx prompt fs) \<noteq> Inl UnicodeDecodeError"
    using run_agent_exn [of e phase idx prompt fs UnicodeDecodeError] by auto
  ultimately show ?thesis by blast
qed

theorem decode_replace_never_raises_witness:
  "decode [0x68, 0x69, 0xFF, 0x21] Replace = Inr [0x68, 0x69, 0xFFFD, 0x21] \<and>
   (\<nexists>u. list_all scalar_value u \<and> utf8_encode u = map unat [0x68, 0x69, 0xFF, 0x21 :: 8 word]) \<and>
   list_all scalar_value [0x68, 0x69] \<and>
   utf8_encode [0x68, 0x69] = map unat [0x68, 0x69 :: 8 word] \<and>
   (0xF5 :: nat) \<le> unat (0xFF :: 8 word) \<and>
   decode [0xFF, 0x21] Replace = Inr [0xFFFD, 0x21] \<and>
   decode [0x21] Replace = Inr [0x21] \<and>
   decode [0x68, 0xC3, 0xA9] Replace = Inr [0x68, 0xE9] \<and>
   utf8_encode [0x68, 0xE9] = map unat [0x68, 0xC3, 0xA9 :: 8 word]"
proof -
  note inst1 = decode_replace_never_raises
    [where b = "[0x68, 0x69, 0xFF, 0x21]" and u = "[0x68, 0x69]" and ?b1.0 = "[0x68, 0x69]" and
      ?b2.0 = "[0xFF, 0x21]"]
  note inst2 = decode_replace_never_raises
    [where b = "[0x68, 0xC3, 0xA9]" and x = "0xFF" and ?b2.0 = "[0x21]"]
  have h1: "list_all scalar_value [0x68, 0x69]" by (simp add: scalar_value_def)
  have h2: "utf8_encode [0x68, 0x69] = map unat [0x68, 0x69 :: 8 word]"
    by (simp add: utf8_encode_def utf8_encode_cp_def)
  have h3: "(0xF5 :: nat) \<le> unat (0xFF :: 8 word)" by simp
  from inst2 h3 obtain t1 where t1: "decode [0x21] Replace = Inr t1"
    "decode [0xFF, 0x21] Replace = Inr (0xFFFD # t1)" by blast
  have a: "decode [0x21] Replace = Inr [0x21]"
    by (simp add: decode_def utf8_step_def)
  with t1 have b: "decode [0xFF, 0x21] Replace = Inr [0xFFFD, 0x21]" by simp
  from inst1 h1 h2 obtain t2 where "decode [0xFF, 0x21] Replace = Inr t2"
    "decode ([0x68, 0x69] @ [0xFF, 0x21]) Replace = Inr ([0x68, 0x69] @ t2)" by blast
  with b have c: "decode [0x68, 0x69, 0xFF, 0x21] Replace = Inr [0x68, 0x69, 0xFFFD, 0x21]"
    by simp
  have "utf8_encode [0x68, 0x69, 0xFFFD, 0x21] \<noteq> map unat [0x68, 0x69, 0xFF, 0x21 :: 8 word]"
    by (simp add: utf8_encode_def utf8_encode_cp_def)
  with inst1 c have d:
    "\<nexists>u. list_all scalar_value u \<and> utf8_encode u = map unat [0x68, 0x69, 0xFF, 0x21 :: 8 word]"
    by auto
  have e: "utf8_encode [0x68, 0xE9] = map unat [0x68, 0xC3, 0xA9 :: 8 word]"
    by (simp add: utf8_encode_def utf8_encode_cp_def)
  have "decode [0x68, 0xC3, 0xA9] Replace = Inr [0x68, 0xE9]"
    by (simp add: decode_def utf8_step_def REPLACEMENT_def Let_def is_cont_def)
  with a b c d e h1 h2 h3 show ?thesis by blast
qed


subsection \<open>C10: the result and the report agree\<close>

text \<open>
  C10. When \<^verbatim>\<open>run_agent\<close> returns a path and an exit code, the path is the path of the
  job's report file, the call has written a report for this very exit code to that path
  and has changed no other file, and, when the phase name and the prompt contain no
  line break, the fourth line of the file is the exit code line and reads back as the
  returned exit code.
\<close>

theorem run_agent_result_matches_artifact:
  assumes "run_agent e phase idx prompt fs = (Inr (p, code), fs')"
  shows "p = str_path (out_file e phase idx) \<and>
         (\<exists>out err. fs' = fs(p \<mapsto> join [NL] (report_body phase idx prompt code out err))) \<and>
         (\<exists>artifact. fs' p = Some artifact \<and>
            (NL \<notin> set phase \<and> NL \<notin> set prompt \<longrightarrow>
               split_on NL artifact ! 3 = str ''- Exit code: '' @ str_int code \<and>
               parse_int (drop 13 (split_on NL artifact ! 3)) = Some code))"
proof -
  from run_agent_Inr [OF assms] obtain out err where
    p: "p = str_path (out_file e phase idx)" and
    fs': "fs' = fs(p \<mapsto> join [NL] (report_body phase idx prompt code out err))"
    by blast
  let ?a = "join [NL] (report_body phase idx prompt code out err)"
  have "split_on NL ?a ! 3 = str ''- Exit code: '' @ str_int code \<and>
        parse_int (drop 13 (split_on NL ?a ! 3)) = Some code"
    if "NL \<notin> set phase" "NL \<notin> set prompt"
  proof -
    have "split_on NL ?a ! 3 = str ''- Exit code: '' @ str_int code"
      using split_report_body [OF that] by simp
    moreover have "drop 13 (str ''- Exit code: '' @ str_int code) = str_int code"
      by (simp add: str_def)
    ultimately show ?thesis by (simp add: parse_int_str_int)
  qed
  with p fs' show ?thesis by auto
qed

theorem run_agent_result_matches_artifact_witness:
  "NL \<notin> set (str ''docs'') \<and> NL \<notin> set (str ''p'') \<and>
   fst (run_agent calm_env (str ''docs'') 1 (str ''p'') Map.empty) =
     Inr (str_path (out_file calm_env (str ''docs'') 1), 0) \<and>
   (\<exists>artifact.
      snd (run_agent calm_env (str ''docs'') 1 (str ''p'') Map.empty)
        (str_path (out_file calm_env (str ''docs'') 1)) = Some artifact \<and>
      parse_int (drop 13 (split_on NL artifact ! 3)) = Some 0)"
proof -
  have 1: "NL \<notin> set (str ''docs'')" by (simp add: str_def NL_def)
  have 2: "NL \<notin> set (str ''p'')" by (simp add: str_def NL_def)
  have "fst (run_agent calm_env (str ''docs'') 1 (str ''p'') Map.empty) =
     Inr (str_path (out_file calm_env (str ''docs'') 1), 0)"
    using run_agent_ok [of calm_env "str ''docs''" 1 "str ''p''" Map.empty]
    by (simp add: calm_env_def quick_process_def exit_code_of_def TIMEOUT_def)
  then have r: "run_agent calm_env (str ''docs'') 1 (str ''p'') Map.empty =
     (Inr (str_path (out_file calm_env (str ''docs'') 1), 0),
      snd (run_agent calm_env (str ''docs'') 1 (str ''p'') Map.empty))"
    by (metis prod.collapse)
  from run_agent_result_matches_artifact [OF r] 1 2 r show ?thesis by auto
qed

end
